theory Spec2Isabelle
  imports Complex_Main "HOL-Library.Multiset"
begin

section \<open>Strings\<close>

text \<open>
  A JavaScript string is a sequence of UTF-16 code units; the regular expressions of
  \<^verbatim>\<open>translationMiddleware.ts\<close> carry no \<^verbatim>\<open>u\<close> flag, so they too work on code units. A string
  is modelled as the list of its code unit values. \<open>ascii\<close> writes an ASCII literal.
\<close>

type_synonym jsstring = "nat list"

definition ascii :: "string \<Rightarrow> jsstring" where
  "ascii s = map of_char s"

text \<open>
  The characters matched by \<^verbatim>\<open>\s\<close> and removed by \<^verbatim>\<open>trim()\<close>: ECMAScript's WhiteSpace and
  LineTerminator productions.
\<close>

definition isWhiteSpace :: "nat \<Rightarrow> bool" where
  "isWhiteSpace c =
     (c = 0x09 \<or> c = 0x0A \<or> c = 0x0B \<or> c = 0x0C \<or> c = 0x0D \<or> c = 0x20 \<or> c = 0xA0
      \<or> c = 0x1680 \<or> (0x2000 \<le> c \<and> c \<le> 0x200A) \<or> c = 0x2028 \<or> c = 0x2029
      \<or> c = 0x202F \<or> c = 0x205F \<or> c = 0x3000 \<or> c = 0xFEFF)"

definition trim :: "jsstring \<Rightarrow> jsstring" where
  "trim s = rev (dropWhile isWhiteSpace (rev (dropWhile isWhiteSpace s)))"

definition startsWith :: "jsstring \<Rightarrow> jsstring \<Rightarrow> bool" where
  "startsWith s p = (take (length p) s = p)"

text \<open>JavaScript truthiness of a \<^verbatim>\<open>string | null\<close>: \<^verbatim>\<open>null\<close> and the empty string are falsy.\<close>

definition truthy :: "jsstring option \<Rightarrow> bool" where
  "truthy r = (case r of None \<Rightarrow> False | Some s \<Rightarrow> s \<noteq> [])"

section \<open>Slash commands\<close>

text \<open>
  The test \<^verbatim>\<open>trimmedText.match(/^https?:\/\/|^ftp:\/\/|^file:\/\/|^\/\//)\<close>: without the
  \<^verbatim>\<open>m\<close> flag \<^verbatim>\<open>^\<close> is the start of the input, so each alternative is a prefix test.
\<close>

definition matchesUrlPrefix :: "jsstring \<Rightarrow> bool" where
  "matchesUrlPrefix t =
     (startsWith t (ascii ''http://'') \<or> startsWith t (ascii ''https://'')
      \<or> startsWith t (ascii ''ftp://'') \<or> startsWith t (ascii ''file://'')
      \<or> startsWith t (ascii ''//''))"

text \<open>The private method \<^verbatim>\<open>TranslationMiddleware.isSlashCommand\<close>.\<close>

definition isSlashCommand :: "jsstring \<Rightarrow> bool" where
  "isSlashCommand text =
     (let trimmedText = trim text in
      if \<not> startsWith trimmedText (ascii ''/'') then False
      else if startsWith trimmedText (ascii ''//'') then False
      else if matchesUrlPrefix trimmedText then False
      else True)"

text \<open>The exported utility function of the same name, a second copy of the same body.\<close>

definition isSlashCommand_exported :: "jsstring \<Rightarrow> bool" where
  "isSlashCommand_exported text =
     (let trimmedText = trim text in
      if \<not> startsWith trimmedText (ascii ''/'') then False
      else if startsWith trimmedText (ascii ''//'') then False
      else if matchesUrlPrefix trimmedText then False
      else True)"

section \<open>Chinese content detection\<close>

definition isBasicCJK :: "nat \<Rightarrow> bool" where
  "isBasicCJK c = (0x4E00 \<le> c \<and> c \<le> 0x9FFF)"

text \<open>
  The class of the first count,
  \<^verbatim>\<open>[\u4e00-\u9fff\u3400-\u4dbf\uf900-\ufaff\u3000-\u303f\uff00-\uffef]\<close>, and the class of the
  count after preprocessing, \<^verbatim>\<open>[\u4e00-\u9fff\u3400-\u4dbf\uf900-\ufaff]\<close>.
\<close>

definition isChineseExtended :: "nat \<Rightarrow> bool" where
  "isChineseExtended c =
     ((0x4E00 \<le> c \<and> c \<le> 0x9FFF) \<or> (0x3400 \<le> c \<and> c \<le> 0x4DBF) \<or> (0xF900 \<le> c \<and> c \<le> 0xFAFF)
      \<or> (0x3000 \<le> c \<and> c \<le> 0x303F) \<or> (0xFF00 \<le> c \<and> c \<le> 0xFFEF))"

definition isChineseIdeograph :: "nat \<Rightarrow> bool" where
  "isChineseIdeograph c =
     ((0x4E00 \<le> c \<and> c \<le> 0x9FFF) \<or> (0x3400 \<le> c \<and> c \<le> 0x4DBF) \<or> (0xF900 \<le> c \<and> c \<le> 0xFAFF))"

definition isAsciiLetter :: "nat \<Rightarrow> bool" where
  "isAsciiLetter c = ((0x41 \<le> c \<and> c \<le> 0x5A) \<or> (0x61 \<le> c \<and> c \<le> 0x7A))"

definition isAsciiDigit :: "nat \<Rightarrow> bool" where
  "isAsciiDigit c = (0x30 \<le> c \<and> c \<le> 0x39)"

text \<open>
  \<^verbatim>\<open>text.replace(re, ' ')\<close> for a global \<open>re\<close>: the input is scanned from the left; where
  the pattern matches, the match is replaced by one space and the scan goes on behind it,
  elsewhere one code unit is copied. A pattern is given by its matcher: from the code
  unit before the position (\<open>None\<close> at the start of the input) and the input from the
  position on, the length of the match there, if any. A look-ahead reads the rest of the
  input, \<^verbatim>\<open>^\<close> under the \<^verbatim>\<open>m\<close> flag the code unit before. None of the patterns below
  matches the empty string; for one that did, the space goes in front of the copied
  code unit, as in JavaScript.
\<close>

function replaceAll ::
  "(nat option \<Rightarrow> jsstring \<Rightarrow> nat option) \<Rightarrow> nat option \<Rightarrow> jsstring \<Rightarrow> jsstring" where
  "replaceAll m prev [] = (case m prev [] of Some n \<Rightarrow> [0x20] | None \<Rightarrow> [])"
| "replaceAll m prev (c # cs) =
     (case m prev (c # cs) of
        None \<Rightarrow> c # replaceAll m (Some c) cs
      | Some n \<Rightarrow>
          if n = 0 then 0x20 # c # replaceAll m (Some c) cs
          else 0x20 # replaceAll m (Some (last (take n (c # cs)))) (drop n (c # cs)))"
  by pat_completeness auto
termination
  by (relation "measure (\<lambda>(m, prev, s). length s)") auto

text \<open>\<^verbatim>\<open>/https?:\/\/[^\s\u4e00-\u9fff]+/g\<close>\<close>

definition matchUrl :: "nat option \<Rightarrow> jsstring \<Rightarrow> nat option" where
  "matchUrl prev s =
     (let scheme = (if startsWith s (ascii ''https://'') then Some 8
                    else if startsWith s (ascii ''http://'') then Some 7 else None)
      in case scheme of
           None \<Rightarrow> None
         | Some k \<Rightarrow>
             let body = takeWhile (\<lambda>c. \<not> isWhiteSpace c \<and> \<not> isBasicCJK c) (drop k s)
             in if body = [] then None else Some (k + length body))"

text \<open>
  \<^verbatim>\<open>/[a-zA-Z]:[\\\//](?![\s\S]*[\u4e00-\u9fff])[^\s]+/g\<close>: the look-ahead fails when a
  basic CJK code unit stands anywhere behind the separator.
\<close>

definition matchWindowsPath :: "nat option \<Rightarrow> jsstring \<Rightarrow> nat option" where
  "matchWindowsPath prev s =
     (case s of
        drive # colon # sep # rest \<Rightarrow>
          if isAsciiLetter drive \<and> colon = 0x3A \<and> (sep = 0x5C \<or> sep = 0x2F)
             \<and> \<not> list_ex isBasicCJK rest
          then (let body = takeWhile (\<lambda>c. \<not> isWhiteSpace c) rest
                in if body = [] then None else Some (3 + length body))
          else None
      | _ \<Rightarrow> None)"

text \<open>
  \<^verbatim>\<open>/^\s*(error|warning|info|debug):\s*(?![\s\S]*[\u4e00-\u9fff])/gmi\<close>. Under \<^verbatim>\<open>m\<close>,
  \<^verbatim>\<open>^\<close> holds at the start of the input and behind a line terminator. Under \<^verbatim>\<open>i\<close> without
  \<^verbatim>\<open>u\<close>, a code unit from 128 on never equals an ASCII letter, so the words are compared
  after lowering ASCII capitals. Giving back white space from either \<^verbatim>\<open>\s*\<close> cannot turn
  a failure into a match: the word starts at a code unit that is no white space, and the
  look-ahead sees the same CJK code units behind any shorter run.
\<close>

definition atLineStart :: "nat option \<Rightarrow> bool" where
  "atLineStart prev =
     (case prev of None \<Rightarrow> True
      | Some c \<Rightarrow> c = 0x0A \<or> c = 0x0D \<or> c = 0x2028 \<or> c = 0x2029)"

definition asciiLower :: "nat \<Rightarrow> nat" where
  "asciiLower c = (if 0x41 \<le> c \<and> c \<le> 0x5A then c + 0x20 else c)"

definition startsWithIgnoreCase :: "jsstring \<Rightarrow> jsstring \<Rightarrow> bool" where
  "startsWithIgnoreCase s w = (map asciiLower (take (length w) s) = w)"

definition matchLogWord :: "jsstring \<Rightarrow> nat option" where
  "matchLogWord s =
     (if startsWithIgnoreCase s (ascii ''error'') then Some 5
      else if startsWithIgnoreCase s (ascii ''warning'') then Some 7
      else if startsWithIgnoreCase s (ascii ''info'') then Some 4
      else if startsWithIgnoreCase s (ascii ''debug'') then Some 5
      else None)"

definition matchLogPrefix :: "nat option \<Rightarrow> jsstring \<Rightarrow> nat option" where
  "matchLogPrefix prev s =
     (if \<not> atLineStart prev then None
      else let lead = takeWhile isWhiteSpace s;
               s1 = dropWhile isWhiteSpace s
           in case matchLogWord s1 of
                None \<Rightarrow> None
              | Some k \<Rightarrow>
                  (case drop k s1 of
                     [] \<Rightarrow> None
                   | colon # s2 \<Rightarrow>
                       if colon \<noteq> 0x3A then None
                       else let gap = takeWhile isWhiteSpace s2;
                                s3 = dropWhile isWhiteSpace s2
                            in if list_ex isBasicCJK s3 then None
                               else Some (length lead + k + 1 + length gap)))"

text \<open>
  \<^verbatim>\<open>/```(?![\s\S]*[\u4e00-\u9fff])[\s\S]*?```/g\<close>: the lazy body ends at the first closing
  fence. \<open>findFence\<close> is the offset of the first fence in its argument.
\<close>

fun findFence :: "jsstring \<Rightarrow> nat option" where
  "findFence [] = None"
| "findFence (c # cs) =
     (if startsWith (c # cs) (ascii ''```'') then Some 0
      else map_option Suc (findFence cs))"

definition matchCodeBlock :: "nat option \<Rightarrow> jsstring \<Rightarrow> nat option" where
  "matchCodeBlock prev s =
     (if startsWith s (ascii ''```'') \<and> \<not> list_ex isBasicCJK (drop 3 s)
      then (case findFence (drop 3 s) of None \<Rightarrow> None | Some k \<Rightarrow> Some (3 + k + 3))
      else None)"

text \<open>
  \<^verbatim>\<open>/`(?![^`]*[\u4e00-\u9fff])[^`]+`/g\<close>: the look-ahead fails when the run of code units
  up to the next backtick holds a basic CJK code unit; the greedy body is that whole run,
  and a backtick must close it.
\<close>

definition matchInlineCode :: "nat option \<Rightarrow> jsstring \<Rightarrow> nat option" where
  "matchInlineCode prev s =
     (case s of
        [] \<Rightarrow> None
      | tick # rest \<Rightarrow>
          if tick \<noteq> 0x60 then None
          else let body = takeWhile (\<lambda>c. c \<noteq> 0x60) rest;
                   behind = dropWhile (\<lambda>c. c \<noteq> 0x60) rest
               in if list_ex isBasicCJK body \<or> body = [] \<or> behind = [] then None
                  else Some (1 + length body + 1))"

text \<open>
  \<^verbatim>\<open>/[a-zA-Z0-9._%+-]+@[a-zA-Z0-9.-]+\.[a-zA-Z]{2,}/g\<close>. The local part is the whole run
  of its class and \<^verbatim>\<open>@\<close> must follow it. The greedy domain part gives back code units
  until a dot followed by two letters or more is next: \<open>matchDomain\<close> tries the split
  points from the right and returns the length of domain, dot and letters.
\<close>

definition isEmailLocal :: "nat \<Rightarrow> bool" where
  "isEmailLocal c =
     (isAsciiLetter c \<or> isAsciiDigit c \<or> c = 0x2E \<or> c = 0x5F \<or> c = 0x25 \<or> c = 0x2B \<or> c = 0x2D)"

definition isEmailDomain :: "nat \<Rightarrow> bool" where
  "isEmailDomain c = (isAsciiLetter c \<or> isAsciiDigit c \<or> c = 0x2E \<or> c = 0x2D)"

definition matchDomain :: "jsstring \<Rightarrow> nat option" where
  "matchDomain d =
     (case find (\<lambda>j. d ! j = 0x2E \<and> 2 \<le> length (takeWhile isAsciiLetter (drop (Suc j) d)))
             (rev [1..<length d]) of
        None \<Rightarrow> None
      | Some j \<Rightarrow> Some (j + 1 + length (takeWhile isAsciiLetter (drop (Suc j) d))))"

definition matchEmail :: "nat option \<Rightarrow> jsstring \<Rightarrow> nat option" where
  "matchEmail prev s =
     (let localPart = takeWhile isEmailLocal s in
      if localPart = [] then None
      else case dropWhile isEmailLocal s of
             [] \<Rightarrow> None
           | atSign # s1 \<Rightarrow>
               if atSign \<noteq> 0x40 then None
               else (case matchDomain (takeWhile isEmailDomain s1) of
                       None \<Rightarrow> None
                     | Some k \<Rightarrow> Some (length localPart + 1 + k)))"

text \<open>\<^verbatim>\<open>/\s+/g\<close>\<close>

definition matchWhiteSpace :: "nat option \<Rightarrow> jsstring \<Rightarrow> nat option" where
  "matchWhiteSpace prev s =
     (let run = takeWhile isWhiteSpace s in if run = [] then None else Some (length run))"

definition preprocessText :: "jsstring \<Rightarrow> jsstring" where
  "preprocessText text =
     trim (replaceAll matchWhiteSpace None
       (replaceAll matchEmail None
         (replaceAll matchInlineCode None
           (replaceAll matchCodeBlock None
             (replaceAll matchLogPrefix None
               (replaceAll matchWindowsPath None
                 (replaceAll matchUrl None text)))))))"

text \<open>
  The two quotients are floating-point divisions of string lengths compared with the
  literals 0.1 and 0.08; for lengths a string can have, the comparison of the rounded
  values agrees with the comparison of the exact ones, which is what the model computes.
\<close>

definition detectChineseContent :: "jsstring \<Rightarrow> bool" where
  "detectChineseContent text =
     (if text = [] \<or> length (trim text) = 0 then False
      else let chineseChars = filter isChineseExtended text in
        if chineseChars = [] then False
        else let preprocessedText = preprocessText text;
                 totalLength = length preprocessedText;
                 chineseCount = length (filter isChineseIdeograph preprocessedText)
             in if chineseCount \<ge> 1 then
                  (let ratio = (if totalLength > 0 then real chineseCount / real totalLength else 1);
                       originalRatio = (if length text > 0
                                        then real (length chineseChars) / real (length text) else 0)
                   in if length text \<le> 20 \<and> chineseCount \<ge> 1 then True
                      else ratio \<ge> 0.1 \<or> originalRatio \<ge> 0.08 \<or> chineseCount \<ge> 5)
                else False)"

section \<open>The middleware state\<close>

record RateLimitConfig =
  rpm :: nat
  tpm :: nat
  maxConcurrent :: nat
  batchSize :: nat

text \<open>
  A queue item. The \<^verbatim>\<open>resolve\<close> and \<^verbatim>\<open>reject\<close> callbacks of the source settle the promise
  that \<^verbatim>\<open>queueTranslation\<close> returned; the model records each settlement in \<open>settledLog\<close>
  under the item's \<open>q_id\<close>, which also stands for the identity of the object
  (\<^verbatim>\<open>batchItems.includes(item)\<close>).
\<close>

record QueueItem =
  q_id :: nat
  q_text :: jsstring
  q_targetLanguage :: jsstring
  q_priority :: int
  q_estimatedTokens :: nat
  q_timestamp :: int

record CacheEntry =
  c_result :: jsstring
  c_timestamp :: int
  c_tokens :: nat

record TokenUsage =
  u_timestamp :: int
  u_tokens :: nat

text \<open>Values thrown or passed to \<^verbatim>\<open>reject\<close>.\<close>

datatype error = TranslationFailed | ApiError nat

text \<open>
  The fields of the class, then two observation fields: \<open>apiLog\<close> lists the calls made to
  \<^verbatim>\<open>api.translateText\<close> (text, target language) and \<open>settledLog\<close> the promises settled
  (\<open>Inr\<close> resolved, \<open>Inl\<close> rejected), both oldest first. \<open>nextId\<close> supplies fresh item
  identities. A JavaScript \<^verbatim>\<open>Map\<close> is an association list in insertion order. Times are
  milliseconds (\<^verbatim>\<open>Date.now()\<close>), passed to each operation as \<open>now\<close>.
\<close>

record middleware =
  initialized :: bool
  enabled :: bool
  rateLimitConfig :: RateLimitConfig
  requestTimes :: "int list"
  tokenUsage :: "TokenUsage list"
  activeRequests :: nat
  translationQueue :: "QueueItem list"
  isProcessingQueue :: bool
  translationCache :: "(jsstring \<times> CacheEntry) list"
  maxCacheSize :: nat
  cacheHitCount :: nat
  cacheMissCount :: nat
  nextId :: nat
  apiLog :: "(jsstring \<times> jsstring) list"
  settledLog :: "(nat \<times> (error + jsstring)) list"

definition initialState :: middleware where
  "initialState =
     \<lparr>initialized = False, enabled = False,
      rateLimitConfig = \<lparr>rpm = 950, tpm = 75000, maxConcurrent = 5, batchSize = 10\<rparr>,
      requestTimes = [], tokenUsage = [], activeRequests = 0,
      translationQueue = [], isProcessingQueue = False,
      translationCache = [], maxCacheSize = 1000, cacheHitCount = 0, cacheMissCount = 0,
      nextId = 0, apiLog = [], settledLog = []\<rparr>"

section \<open>JavaScript Map operations\<close>

definition map_get :: "('k \<times> 'v) list \<Rightarrow> 'k \<Rightarrow> 'v option" where
  "map_get m k = map_of m k"

definition map_delete :: "('k \<times> 'v) list \<Rightarrow> 'k \<Rightarrow> ('k \<times> 'v) list" where
  "map_delete m k = filter (\<lambda>kv. fst kv \<noteq> k) m"

text \<open>\<^verbatim>\<open>Map.set\<close>: an existing key keeps its place, a new key goes last.\<close>

fun map_set :: "('k \<times> 'v) list \<Rightarrow> 'k \<Rightarrow> 'v \<Rightarrow> ('k \<times> 'v) list" where
  "map_set [] k v = [(k, v)]"
| "map_set (kv # m) k v = (if fst kv = k then (k, v) # m else kv # map_set m k v)"

section \<open>Token estimate\<close>

text \<open>
  The class \<^verbatim>\<open>[\u4e00-\u9fff]\<close> is \<open>isBasicCJK\<close>.
  \<^verbatim>\<open>Math.ceil(chineseChars * 1.5 + otherChars / 4)\<close>; both products are exact in binary
  floating point, so the real-number ceiling is the value computed.
\<close>

definition estimateTokens :: "jsstring \<Rightarrow> nat" where
  "estimateTokens text =
     (let chineseChars = length (filter isBasicCJK text);
          otherChars = length text - chineseChars
      in nat \<lceil>real chineseChars * 1.5 + real otherChars / 4\<rceil>)"

section \<open>Rate limiter\<close>

definition canMakeRequest :: "middleware \<Rightarrow> int \<Rightarrow> nat \<Rightarrow> bool \<times> middleware" where
  "canMakeRequest st now estimatedTokens =
     (let oneMinuteAgo = now - 60000;
          st1 = st\<lparr>requestTimes := filter (\<lambda>time. time > oneMinuteAgo) (requestTimes st),
                    tokenUsage := filter (\<lambda>usage. u_timestamp usage > oneMinuteAgo) (tokenUsage st)\<rparr>
      in if length (requestTimes st1) \<ge> rpm (rateLimitConfig st1) then (False, st1)
         else let currentTokenUsage = sum_list (map u_tokens (tokenUsage st1)) in
           if currentTokenUsage + estimatedTokens > tpm (rateLimitConfig st1) then (False, st1)
           else if activeRequests st1 \<ge> maxConcurrent (rateLimitConfig st1) then (False, st1)
           else (True, st1))"

definition recordRequest :: "middleware \<Rightarrow> int \<Rightarrow> nat \<Rightarrow> middleware" where
  "recordRequest st now tokens =
     st\<lparr>requestTimes := requestTimes st @ [now],
        tokenUsage := tokenUsage st @ [\<lparr>u_timestamp = now, u_tokens = tokens\<rparr>],
        activeRequests := activeRequests st + 1\<rparr>"

definition completeRequest :: "middleware \<Rightarrow> middleware" where
  "completeRequest st = st\<lparr>activeRequests := activeRequests st - 1\<rparr>"

text \<open>The two window figures of \<^verbatim>\<open>getPerformanceStats\<close>.\<close>

definition requestsLastMinute :: "middleware \<Rightarrow> int \<Rightarrow> nat" where
  "requestsLastMinute st now = length (filter (\<lambda>time. time > now - 60000) (requestTimes st))"

definition tokenUsageLastMinute :: "middleware \<Rightarrow> int \<Rightarrow> nat" where
  "tokenUsageLastMinute st now =
     sum_list (map u_tokens (filter (\<lambda>usage. u_timestamp usage > now - 60000) (tokenUsage st)))"

section \<open>Translation cache\<close>

text \<open>
  \<^verbatim>\<open>toLowerCase\<close> is the Unicode mapping of the JavaScript runtime; it is taken as the
  parameter \<open>lc\<close>.
\<close>

definition getCacheKey :: "(jsstring \<Rightarrow> jsstring) \<Rightarrow> jsstring \<Rightarrow> jsstring \<Rightarrow> jsstring" where
  "getCacheKey lc text targetLanguage = targetLanguage @ ascii '':'' @ lc (trim text)"

definition getFromCache ::
  "(jsstring \<Rightarrow> jsstring) \<Rightarrow> middleware \<Rightarrow> int \<Rightarrow> jsstring \<Rightarrow> jsstring \<Rightarrow> jsstring option \<times> middleware" where
  "getFromCache lc st now text targetLanguage =
     (let key = getCacheKey lc text targetLanguage in
      case map_get (translationCache st) key of
        Some cached \<Rightarrow>
          if now - c_timestamp cached < 3600000
          then (Some (c_result cached), st\<lparr>cacheHitCount := cacheHitCount st + 1\<rparr>)
          else (None, st\<lparr>translationCache := map_delete (translationCache st) key,
                          cacheMissCount := cacheMissCount st + 1\<rparr>)
      | None \<Rightarrow> (None, st\<lparr>cacheMissCount := cacheMissCount st + 1\<rparr>))"

text \<open>
  \<^verbatim>\<open>Array.from(keys())[0]\<close> of an empty map is \<^verbatim>\<open>undefined\<close>, and deleting it removes
  nothing.
\<close>

definition storeToCache ::
  "(jsstring \<Rightarrow> jsstring) \<Rightarrow> middleware \<Rightarrow> int \<Rightarrow> jsstring \<Rightarrow> jsstring \<Rightarrow> jsstring \<Rightarrow> nat \<Rightarrow> middleware" where
  "storeToCache lc st now text targetLanguage result tokens =
     (let key = getCacheKey lc text targetLanguage;
          cache1 = (if length (translationCache st) \<ge> maxCacheSize st
                    then (case translationCache st of
                            [] \<Rightarrow> []
                          | oldest # rest \<Rightarrow> map_delete (translationCache st) (fst oldest))
                    else translationCache st)
      in st\<lparr>translationCache :=
               map_set cache1 key \<lparr>c_result = result, c_timestamp = now, c_tokens = tokens\<rparr>\<rparr>)"

section \<open>Queue processing\<close>

text \<open>
  The external capability \<^verbatim>\<open>api.translateText\<close> is the parameter \<open>api\<close>: from the number
  of calls made before, the text and the target language, it resolves (\<open>Inr\<close>) or
  throws (\<open>Inl\<close>). A tick is modelled for a capability that settles before any other
  event: the awaits of \<^verbatim>\<open>processBatch\<close> run to the end within the tick.
\<close>

type_synonym translateApi = "nat \<Rightarrow> jsstring \<Rightarrow> jsstring \<Rightarrow> error + jsstring"

definition settleAll :: "middleware \<Rightarrow> QueueItem list \<Rightarrow> error + jsstring \<Rightarrow> middleware" where
  "settleAll st duplicateItems outcome =
     st\<lparr>settledLog := settledLog st @ map (\<lambda>item. (q_id item, outcome)) duplicateItems\<rparr>"

text \<open>
  The grouping loop of \<^verbatim>\<open>processBatch\<close>: a new key gets an empty array, then the item
  is pushed.
\<close>

definition addToGroup ::
  "(jsstring \<times> QueueItem list) list \<Rightarrow> jsstring \<Rightarrow> QueueItem \<Rightarrow> (jsstring \<times> QueueItem list) list" where
  "addToGroup groups key item =
     (case map_get groups key of
        None \<Rightarrow> map_set groups key [item]
      | Some duplicateItems \<Rightarrow> map_set groups key (duplicateItems @ [item]))"

definition uniqueItems ::
  "(jsstring \<Rightarrow> jsstring) \<Rightarrow> QueueItem list \<Rightarrow> (jsstring \<times> QueueItem list) list" where
  "uniqueItems lc items =
     foldl (\<lambda>groups item.
              addToGroup groups (getCacheKey lc (q_text item) (q_targetLanguage item)) item)
       [] items"

text \<open>One round of the loop over the groups, with its \<^verbatim>\<open>try\<close> and \<^verbatim>\<open>catch\<close>.\<close>

definition processGroup ::
  "(jsstring \<Rightarrow> jsstring) \<Rightarrow> translateApi \<Rightarrow> int \<Rightarrow> middleware \<Rightarrow> QueueItem list \<Rightarrow> middleware" where
  "processGroup lc api now st duplicateItems =
     (case duplicateItems of
        [] \<Rightarrow> st
      | firstItem # others \<Rightarrow>
          (case getFromCache lc st now (q_text firstItem) (q_targetLanguage firstItem) of
             (cached, st1) \<Rightarrow>
               (case (if truthy cached then cached else None) of
                  Some result \<Rightarrow> settleAll st1 duplicateItems (Inr result)
                | None \<Rightarrow>
                 (let st2 = st1\<lparr>apiLog := apiLog st1 @ [(q_text firstItem, q_targetLanguage firstItem)]\<rparr>
                  in case api (length (apiLog st1)) (q_text firstItem) (q_targetLanguage firstItem) of
                       Inl err \<Rightarrow> settleAll st2 duplicateItems (Inl err)
                     | Inr result \<Rightarrow>
                         if result \<noteq> []
                         then settleAll
                                (storeToCache lc st2 now (q_text firstItem) (q_targetLanguage firstItem)
                                   result (q_estimatedTokens firstItem))
                                duplicateItems (Inr result)
                         else settleAll st2 duplicateItems (Inl TranslationFailed)))))"

definition processBatch ::
  "(jsstring \<Rightarrow> jsstring) \<Rightarrow> translateApi \<Rightarrow> middleware \<Rightarrow> int \<Rightarrow> QueueItem list \<Rightarrow> middleware" where
  "processBatch lc api st now items =
     (if items = [] then st
      else let totalTokens = sum_list (map q_estimatedTokens items);
               st1 = recordRequest st now totalTokens;
               st2 = foldl (processGroup lc api now) st1 (map snd (uniqueItems lc items))
           in completeRequest st2)"

text \<open>
  The loop of \<^verbatim>\<open>processQueue\<close> that collects the batch, over the items still to visit,
  with the batch and its token total so far.
\<close>

fun collectBatch ::
  "middleware \<Rightarrow> int \<Rightarrow> QueueItem list \<Rightarrow> QueueItem list \<Rightarrow> nat \<Rightarrow> QueueItem list \<times> middleware" where
  "collectBatch st now [] batchItems totalEstimatedTokens = (batchItems, st)"
| "collectBatch st now (item # rest) batchItems totalEstimatedTokens =
     (if length batchItems \<ge> batchSize (rateLimitConfig st) then (batchItems, st)
      else if real (totalEstimatedTokens + q_estimatedTokens item) > real (tpm (rateLimitConfig st)) / 4
      then (batchItems, st)
      else (case canMakeRequest st now (q_estimatedTokens item) of
              (True, st1) \<Rightarrow>
                collectBatch st1 now rest (batchItems @ [item])
                  (totalEstimatedTokens + q_estimatedTokens item)
            | (False, st1) \<Rightarrow> (batchItems, st1)))"

text \<open>
  \<^verbatim>\<open>Array.prototype.sort\<close> is stable, as is \<open>sort_key\<close>; the comparator orders by
  falling priority.
\<close>

definition processQueue ::
  "(jsstring \<Rightarrow> jsstring) \<Rightarrow> translateApi \<Rightarrow> middleware \<Rightarrow> int \<Rightarrow> middleware" where
  "processQueue lc api st now =
     (if isProcessingQueue st \<or> translationQueue st = [] then st
      else let st1 = st\<lparr>isProcessingQueue := True\<rparr>;
               st2 = st1\<lparr>translationQueue := sort_key (\<lambda>item. - q_priority item) (translationQueue st1)\<rparr>
           in case collectBatch st2 now (translationQueue st2) [] 0 of
                (batchItems, st3) \<Rightarrow>
                  (let st4 = (if batchItems \<noteq> []
                              then (let st5 = processBatch lc api st3 now batchItems
                                    in st5\<lparr>translationQueue :=
                                             filter (\<lambda>item. q_id item \<notin> set (map q_id batchItems))
                                               (translationQueue st5)\<rparr>)
                              else st3)
                   in st4\<lparr>isProcessingQueue := False\<rparr>))"

text \<open>
  \<^verbatim>\<open>queueTranslation\<close> up to the promise it returns: \<open>Inl\<close> is the cached result returned
  at once, \<open>Inr\<close> the identity of the queued item whose settlement the caller awaits.
\<close>

definition queueTranslation ::
  "(jsstring \<Rightarrow> jsstring) \<Rightarrow> translateApi \<Rightarrow> middleware \<Rightarrow> int \<Rightarrow> jsstring \<Rightarrow> jsstring \<Rightarrow> int
     \<Rightarrow> (jsstring + nat) \<times> middleware" where
  "queueTranslation lc api st now text targetLanguage priority =
     (case getFromCache lc st now text targetLanguage of
        (cachedResult, st1) \<Rightarrow>
          (case (if truthy cachedResult then cachedResult else None) of
             Some result \<Rightarrow> (Inl result, st1)
           | None \<Rightarrow>
               (let queueItem = \<lparr>q_id = nextId st1, q_text = text, q_targetLanguage = targetLanguage,
                                 q_priority = priority, q_estimatedTokens = estimateTokens text,
                                 q_timestamp = now\<rparr>;
                    st2 = st1\<lparr>translationQueue := translationQueue st1 @ [queueItem],
                              nextId := nextId st1 + 1\<rparr>
                in case canMakeRequest st2 now (q_estimatedTokens queueItem) of
                     (ok, st3) \<Rightarrow>
                       (Inr (q_id queueItem),
                        if ok \<and> \<not> isProcessingQueue st3 then processQueue lc api st3 now else st3))))"

text \<open>Runs of the scheduler: requests enqueued and timer ticks, each at its time.\<close>

datatype event = Enqueue jsstring jsstring int | Tick

fun step :: "(jsstring \<Rightarrow> jsstring) \<Rightarrow> translateApi \<Rightarrow> middleware \<Rightarrow> int \<times> event \<Rightarrow> middleware" where
  "step lc api st (now, Enqueue text targetLanguage priority) =
     snd (queueTranslation lc api st now text targetLanguage priority)"
| "step lc api st (now, Tick) = processQueue lc api st now"

definition run ::
  "(jsstring \<Rightarrow> jsstring) \<Rightarrow> translateApi \<Rightarrow> middleware \<Rightarrow> (int \<times> event) list \<Rightarrow> middleware" where
  "run lc api st events = foldl (step lc api) st events"

section \<open>Translating user input\<close>

record TranslationResult =
  translatedText :: jsstring
  originalText :: jsstring
  wasTranslated :: bool
  detectedLanguage :: jsstring

text \<open>
  An \<^verbatim>\<open>async\<close> function either returns or is suspended on the promise of a queued item.
  Its result is a sum: \<open>Inl\<close> is an exception that escapes to the caller.
\<close>

datatype 'a async = Returned 'a | Awaiting nat

definition tryCatch :: "error + 'a \<Rightarrow> (error \<Rightarrow> error + 'a) \<Rightarrow> error + 'a" where
  "tryCatch body handler = (case body of Inl err \<Rightarrow> handler err | Inr x \<Rightarrow> Inr x)"

text \<open>
  \<^verbatim>\<open>init\<close> loads the saved configuration, of which the model keeps \<^verbatim>\<open>enabled\<close>; when
  loading throws, the default configuration has translation enabled.
\<close>

definition init :: "error + bool \<Rightarrow> middleware \<Rightarrow> middleware" where
  "init loadConfig st =
     (case loadConfig of
        Inr savedEnabled \<Rightarrow> st\<lparr>enabled := savedEnabled, initialized := True\<rparr>
      | Inl err \<Rightarrow> st\<lparr>enabled := True, initialized := True\<rparr>)"

definition ensureInitialized :: "error + bool \<Rightarrow> middleware \<Rightarrow> middleware" where
  "ensureInitialized loadConfig st = (if \<not> initialized st then init loadConfig st else st)"

text \<open>\<open>detectApi\<close> is the external \<^verbatim>\<open>api.detectTextLanguage\<close>.\<close>

definition detectLanguage :: "(jsstring \<Rightarrow> error + jsstring) \<Rightarrow> jsstring \<Rightarrow> jsstring" where
  "detectLanguage detectApi text =
     (case detectApi text of
        Inr language \<Rightarrow> language
      | Inl err \<Rightarrow> if detectChineseContent text then ascii ''zh'' else ascii ''en'')"

definition untranslated :: "jsstring \<Rightarrow> jsstring \<Rightarrow> TranslationResult" where
  "untranslated userInput language =
     \<lparr>translatedText = userInput, originalText = userInput, wasTranslated = False,
      detectedLanguage = language\<rparr>"

text \<open>
  The rest of \<^verbatim>\<open>translateUserInput\<close> from the point where the awaited
  \<^verbatim>\<open>queueTranslation\<close> settles: the inner \<^verbatim>\<open>try\<close> around the await, whose \<^verbatim>\<open>catch\<close> only
  logs, inside the outer \<^verbatim>\<open>try\<close>, whose \<^verbatim>\<open>catch\<close> detects the language again.
\<close>

definition translateUserInput_resume ::
  "(jsstring \<Rightarrow> error + jsstring) \<Rightarrow> jsstring \<Rightarrow> jsstring \<Rightarrow> error + jsstring
     \<Rightarrow> error + TranslationResult" where
  "translateUserInput_resume detectApi userInput language settled =
     tryCatch
       (case tryCatch
               (case settled of
                  Inl err \<Rightarrow> Inl err
                | Inr translated \<Rightarrow>
                    if translated \<noteq> [] \<and> trim translated \<noteq> trim userInput
                    then Inr (Some \<lparr>translatedText = translated, originalText = userInput,
                                    wasTranslated = True, detectedLanguage = language\<rparr>)
                    else Inr None)
               (\<lambda>err. Inr None) of
          Inl err \<Rightarrow> Inl err
        | Inr (Some res) \<Rightarrow> Inr res
        | Inr None \<Rightarrow> Inr (untranslated userInput language))
       (\<lambda>err. Inr (untranslated userInput (detectLanguage detectApi userInput)))"

text \<open>The body of \<^verbatim>\<open>translateUserInput\<close> behind the slash-command test.\<close>

definition translateOrdinary ::
  "(jsstring \<Rightarrow> jsstring) \<Rightarrow> (jsstring \<Rightarrow> error + jsstring) \<Rightarrow> translateApi \<Rightarrow> middleware \<Rightarrow> int
     \<Rightarrow> jsstring \<Rightarrow> (error + TranslationResult async) \<times> middleware" where
  "translateOrdinary lc detectApi api st now userInput =
     (if \<not> enabled st
      then (Inr (Returned (untranslated userInput (detectLanguage detectApi userInput))), st)
      else let language = detectLanguage detectApi userInput;
               isChineseByCode = startsWith (lc language) (ascii ''zh'');
               isChineseByContent = detectChineseContent userInput;
               isAsciiOnly = list_all (\<lambda>c. c \<le> 0x7F) userInput;
               shouldTranslate = (isChineseByContent \<or> (isChineseByCode \<and> \<not> isAsciiOnly))
           in if shouldTranslate
              then (case queueTranslation lc api st now userInput (ascii ''en'') 3 of
                      (Inl cachedResult, st1) \<Rightarrow>
                        (map_sum id Returned
                           (translateUserInput_resume detectApi userInput language (Inr cachedResult)),
                         st1)
                    | (Inr i, st1) \<Rightarrow>
                        (case map_of (drop (length (settledLog st)) (settledLog st1)) i of
                           Some settled \<Rightarrow>
                             (map_sum id Returned
                                (translateUserInput_resume detectApi userInput language settled),
                              st1)
                         | None \<Rightarrow> (Inr (Awaiting i), st1)))
              else (Inr (Returned (untranslated userInput language)), st))"

definition translateUserInput ::
  "(jsstring \<Rightarrow> jsstring) \<Rightarrow> error + bool \<Rightarrow> (jsstring \<Rightarrow> error + jsstring) \<Rightarrow> translateApi
     \<Rightarrow> middleware \<Rightarrow> int \<Rightarrow> jsstring \<Rightarrow> (error + TranslationResult async) \<times> middleware" where
  "translateUserInput lc loadConfig detectApi api st0 now userInput =
     (let st = ensureInitialized loadConfig st0 in
      if isSlashCommand userInput
      then (Inr (Returned (untranslated userInput (detectLanguage detectApi userInput))), st)
      else translateOrdinary lc detectApi api st now userInput)"

section \<open>Runs of cache stores\<close>

text \<open>A sequence of calls to \<^verbatim>\<open>storeToCache\<close>: time, text, target language, result, tokens.\<close>

definition storeAll ::
  "(jsstring \<Rightarrow> jsstring) \<Rightarrow> middleware \<Rightarrow> (int \<times> jsstring \<times> jsstring \<times> jsstring \<times> nat) list
     \<Rightarrow> middleware" where
  "storeAll lc st puts =
     foldl (\<lambda>s (now, text, targetLanguage, result, tokens).
              storeToCache lc s now text targetLanguage result tokens) st puts"

text \<open>
  The keys of a \<^verbatim>\<open>Map\<close> are distinct; with the size bound this is the invariant of the
  cache.
\<close>

definition cacheOk :: "middleware \<Rightarrow> bool" where
  "cacheOk st =
     (distinct (map fst (translationCache st))
      \<and> length (translationCache st) \<le> maxCacheSize st \<and> 0 < maxCacheSize st)"

section \<open>A run that overshoots the token limit\<close>

text \<open>
  A text of \<open>n\<close> letters \<^verbatim>\<open>a\<close>, a translation capability that throws on every call, and a
  run from the initial state: one request of 5000 tokens at time 0, three of 18750 and
  one of 13750 at time 1000, each dispatched as it arrives, then two requests of 5000
  tokens at time 2000, which must wait because the window is full.
\<close>

definition asciiText :: "nat \<Rightarrow> jsstring" where
  "asciiText n = replicate n 0x61"

definition failingApi :: translateApi where
  "failingApi n text targetLanguage = Inl (ApiError 0)"

definition overshootEvents :: "(int \<times> event) list" where
  "overshootEvents =
     [(0, Enqueue (asciiText 20000) (ascii ''en'') 3),
      (1000, Enqueue (asciiText 75000) (ascii ''en'') 3),
      (1000, Enqueue (asciiText 75000) (ascii ''en'') 3),
      (1000, Enqueue (asciiText 75000) (ascii ''en'') 3),
      (1000, Enqueue (asciiText 55000) (ascii ''en'') 3),
      (2000, Enqueue (asciiText 20000) (ascii ''en'') 3),
      (2000, Enqueue (asciiText 20000) (ascii ''en'') 3)]"

section \<open>Slash commands: results\<close>

lemma startsWith_Cons: "startsWith (c # cs) (p # ps) = (c = p \<and> startsWith cs ps)"
  by (simp add: startsWith_def)

lemma startsWith_Nil [simp]: "startsWith s [] = True" "startsWith [] (p # ps) = False"
  by (simp_all add: startsWith_def)

lemma single_slash_no_url:
  "startsWith t (ascii ''/'') \<Longrightarrow> \<not> startsWith t (ascii ''//'') \<Longrightarrow> \<not> matchesUrlPrefix t"
  by (cases t) (simp_all add: matchesUrlPrefix_def ascii_def startsWith_Cons)

text \<open>
  Claim C10. \<^verbatim>\<open>isSlashCommand\<close> holds exactly when the trimmed text starts with
  \<^verbatim>\<open>/\<close> and not with \<^verbatim>\<open>//\<close>, for the method and for the exported function alike; the
  test for a URL never decides, since no text that starts with one slash and not with two
  matches the URL pattern.
\<close>

theorem isSlashCommand_single_slash:
  "isSlashCommand text =
     (startsWith (trim text) (ascii ''/'') \<and> \<not> startsWith (trim text) (ascii ''//''))
   \<and> isSlashCommand_exported text =
     (startsWith (trim text) (ascii ''/'') \<and> \<not> startsWith (trim text) (ascii ''//''))
   \<and> (startsWith t (ascii ''/'') \<and> \<not> startsWith t (ascii ''//'') \<and> matchesUrlPrefix t) = False"
  using single_slash_no_url[of t] single_slash_no_url[of "trim text"]
  by (auto simp: isSlashCommand_def isSlashCommand_exported_def Let_def)

section \<open>Translation cache: results\<close>

lemma map_fst_map_set:
  "map fst (map_set m k v) = (if k \<in> set (map fst m) then map fst m else map fst m @ [k])"
  by (induction m) auto

lemma length_map_set:
  "length (map_set m k v) = (if k \<in> set (map fst m) then length m else Suc (length m))"
  by (induction m) auto

lemma distinct_map_set: "distinct (map fst m) \<Longrightarrow> distinct (map fst (map_set m k v))"
  by (simp add: map_fst_map_set)

lemma map_get_map_set: "map_get (map_set m k v) k' = (if k' = k then Some v else map_get m k')"
  by (induction m) (auto simp: map_get_def)

lemma map_get_map_delete: "map_get (map_delete m k) k' = (if k' = k then None else map_get m k')"
  by (induction m) (auto simp: map_get_def map_delete_def)

lemma map_delete_head: "distinct (map fst (kv # m)) \<Longrightarrow> map_delete (kv # m) (fst kv) = m"
proof -
  assume "distinct (map fst (kv # m))"
  then have "fst kv \<notin> fst ` set m" by simp
  then have "\<forall>x\<in>set m. fst x \<noteq> fst kv" by (metis imageI)
  then have "filter (\<lambda>x. fst x \<noteq> fst kv) m = m" by (simp add: filter_id_conv)
  then show ?thesis by (simp add: map_delete_def)
qed

text \<open>What a store does to the map: at capacity the first entry goes, then the key is set.\<close>

lemma storeToCache_cache:
  "distinct (map fst (translationCache st)) \<Longrightarrow>
   translationCache (storeToCache lc st now text lang result tokens) =
     map_set (if length (translationCache st) \<ge> maxCacheSize st
              then tl (translationCache st) else translationCache st)
       (getCacheKey lc text lang) \<lparr>c_result = result, c_timestamp = now, c_tokens = tokens\<rparr>"
  by (cases "translationCache st") (auto simp: storeToCache_def Let_def map_delete_head)

lemma storeToCache_maxCacheSize [simp]:
  "maxCacheSize (storeToCache lc st now text lang result tokens) = maxCacheSize st"
  by (simp add: storeToCache_def Let_def)

lemma storeToCache_cacheOk:
  "cacheOk st \<Longrightarrow> cacheOk (storeToCache lc st now text lang result tokens)"
proof -
  assume ok: "cacheOk st"
  let ?c = "translationCache st"
  let ?c1 = "if length ?c \<ge> maxCacheSize st then tl ?c else ?c"
  let ?st' = "storeToCache lc st now text lang result tokens"
  from ok have d: "distinct (map fst ?c)" and le: "length ?c \<le> maxCacheSize st"
    and pos: "0 < maxCacheSize st"
    by (simp_all add: cacheOk_def)
  have eq: "translationCache ?st' =
      map_set ?c1 (getCacheKey lc text lang) \<lparr>c_result = result, c_timestamp = now, c_tokens = tokens\<rparr>"
    using d by (rule storeToCache_cache)
  have d1: "distinct (map fst ?c1)"
    using d by (simp add: map_tl distinct_tl)
  have l1: "Suc (length ?c1) \<le> maxCacheSize st"
    using le pos by auto
  have "length (translationCache ?st') \<le> Suc (length ?c1)"
    unfolding eq by (simp add: length_map_set)
  with l1 have "length (translationCache ?st') \<le> maxCacheSize ?st'" by simp
  moreover have "distinct (map fst (translationCache ?st'))"
    unfolding eq using d1 by (rule distinct_map_set)
  ultimately show ?thesis using pos by (simp add: cacheOk_def)
qed

lemma storeAll_cacheOk: "cacheOk st \<Longrightarrow> cacheOk (storeAll lc st puts)"
  unfolding storeAll_def
  by (induction puts arbitrary: st) (auto simp: storeToCache_cacheOk)

lemma storeAll_maxCacheSize [simp]: "maxCacheSize (storeAll lc st puts) = maxCacheSize st"
  unfolding storeAll_def
  by (induction puts arbitrary: st) auto

lemma getFromCache_hit_keeps_cache:
  "fst (getFromCache lc st now text lang) = Some r \<Longrightarrow>
   translationCache (snd (getFromCache lc st now text lang)) = translationCache st"
  by (auto simp: getFromCache_def Let_def split: option.splits if_splits)

text \<open>
  Claim C4. Starting from an empty cache with a positive capacity (the source fixes
  1000), after any sequence of stores the cache holds at most \<open>maxCacheSize\<close> entries;
  a store into a full cache removes the first entry of the map, the one whose key was
  inserted longest ago, and leaves the others in their order; a hit does not reorder the
  map, so the eviction order is insertion order, not order of use.
\<close>

theorem cache_bound_fifo:
  assumes "translationCache st0 = []" and "0 < maxCacheSize st0"
  shows "length (translationCache (storeAll lc st0 puts)) \<le> maxCacheSize st0
    \<and> (length (translationCache (storeAll lc st0 puts)) \<ge> maxCacheSize st0 \<longrightarrow>
         translationCache (storeToCache lc (storeAll lc st0 puts) now text lang result tokens) =
           map_set (tl (translationCache (storeAll lc st0 puts))) (getCacheKey lc text lang)
             \<lparr>c_result = result, c_timestamp = now, c_tokens = tokens\<rparr>)
    \<and> (fst (getFromCache lc (storeAll lc st0 puts) now text lang) = Some r \<longrightarrow>
         translationCache (snd (getFromCache lc (storeAll lc st0 puts) now text lang)) =
           translationCache (storeAll lc st0 puts))"
proof -
  have "cacheOk st0" using assms by (simp add: cacheOk_def)
  then have ok: "cacheOk (storeAll lc st0 puts)" by (rule storeAll_cacheOk)
  then have "length (translationCache (storeAll lc st0 puts)) \<le> maxCacheSize st0"
    by (simp add: cacheOk_def)
  moreover from ok have "distinct (map fst (translationCache (storeAll lc st0 puts)))"
    by (simp add: cacheOk_def)
  ultimately show ?thesis
    by (simp add: storeToCache_cache getFromCache_hit_keeps_cache)
qed

theorem cache_bound_fifo_witness:
  "translationCache (initialState\<lparr>maxCacheSize := 2\<rparr>) = []
   \<and> 0 < maxCacheSize (initialState\<lparr>maxCacheSize := 2\<rparr>)
   \<and> map fst (translationCache (storeAll (\<lambda>s. s) (initialState\<lparr>maxCacheSize := 2\<rparr>)
        [(0, ascii ''a'', ascii ''en'', ascii ''x'', 1), (1, ascii ''b'', ascii ''en'', ascii ''y'', 1)]))
       = [ascii ''en:a'', ascii ''en:b'']
   \<and> map fst (translationCache (storeToCache (\<lambda>s. s)
        (storeAll (\<lambda>s. s) (initialState\<lparr>maxCacheSize := 2\<rparr>)
          [(0, ascii ''a'', ascii ''en'', ascii ''x'', 1), (1, ascii ''b'', ascii ''en'', ascii ''y'', 1)])
        2 (ascii ''c'') (ascii ''en'') (ascii ''z'') 1))
       = [ascii ''en:b'', ascii ''en:c'']"
  using cache_bound_fifo [of "initialState\<lparr>maxCacheSize := 2\<rparr>" "\<lambda>s. s"
      "[(0, ascii ''a'', ascii ''en'', ascii ''x'', 1), (1, ascii ''b'', ascii ''en'', ascii ''y'', 1)]"
      2 "ascii ''c''" "ascii ''en''" "ascii ''z''" 1]
  by (simp add: initialState_def storeAll_def storeToCache_def getCacheKey_def trim_def
      isWhiteSpace_def ascii_def map_delete_def Let_def)

text \<open>
  Claim C5. An entry whose time stamp is \<open>T\<close> is not returned by a lookup later than
  \<open>T + 3600000\<close> (the fixed time to live of one hour): the lookup reports a miss and
  the entry is gone from the map afterwards. Whatever a lookup returns is the result of
  an entry younger than the time to live. In particular a result stored at \<open>T\<close> is a
  miss at any such later time.
\<close>

theorem getFromCache_ttl:
  "(map_get (translationCache st) (getCacheKey lc text lang) = Some entry
      \<and> now > c_timestamp entry + 3600000 \<longrightarrow>
        fst (getFromCache lc st now text lang) = None
        \<and> map_get (translationCache (snd (getFromCache lc st now text lang)))
             (getCacheKey lc text lang) = None)
   \<and> (fst (getFromCache lc st now text lang) = Some r \<longrightarrow>
        (\<exists>e. map_get (translationCache st) (getCacheKey lc text lang) = Some e
              \<and> c_result e = r \<and> now - c_timestamp e < 3600000))
   \<and> (now > T + 3600000 \<longrightarrow>
        fst (getFromCache lc (storeToCache lc st T text lang result tokens) now text lang) = None)"
proof (intro conjI impI)
  assume "map_get (translationCache st) (getCacheKey lc text lang) = Some entry
      \<and> now > c_timestamp entry + 3600000"
  then show "fst (getFromCache lc st now text lang) = None"
    and "map_get (translationCache (snd (getFromCache lc st now text lang)))
             (getCacheKey lc text lang) = None"
    by (simp_all add: getFromCache_def Let_def map_get_map_delete)
next
  assume "fst (getFromCache lc st now text lang) = Some r"
  then show "\<exists>e. map_get (translationCache st) (getCacheKey lc text lang) = Some e
              \<and> c_result e = r \<and> now - c_timestamp e < 3600000"
    by (auto simp: getFromCache_def Let_def split: option.splits if_splits)
next
  assume late: "now > T + 3600000"
  have "map_get (translationCache (storeToCache lc st T text lang result tokens))
          (getCacheKey lc text lang) = Some \<lparr>c_result = result, c_timestamp = T, c_tokens = tokens\<rparr>"
    by (simp add: storeToCache_def Let_def map_get_map_set)
  with late show "fst (getFromCache lc (storeToCache lc st T text lang result tokens) now text lang) = None"
    by (simp add: getFromCache_def Let_def)
qed

theorem getFromCache_ttl_witness:
  "map_get (translationCache (storeToCache (\<lambda>s. s) initialState 0 (ascii ''a'') (ascii ''en'') (ascii ''x'') 1))
       (getCacheKey (\<lambda>s. s) (ascii ''a'') (ascii ''en''))
     = Some \<lparr>c_result = ascii ''x'', c_timestamp = 0, c_tokens = 1\<rparr>
   \<and> (3600001::int) > 0 + 3600000
   \<and> getFromCache (\<lambda>s. s) (storeToCache (\<lambda>s. s) initialState 0 (ascii ''a'') (ascii ''en'') (ascii ''x'') 1)
        3600001 (ascii ''a'') (ascii ''en'')
     = (None, initialState\<lparr>cacheMissCount := 1\<rparr>)
   \<and> fst (getFromCache (\<lambda>s. s) (storeToCache (\<lambda>s. s) initialState 0 (ascii ''a'') (ascii ''en'') (ascii ''x'') 1)
        3599999 (ascii ''a'') (ascii ''en''))
     = Some (ascii ''x'')"
  using getFromCache_ttl [of "storeToCache (\<lambda>s. s) initialState 0 (ascii ''a'') (ascii ''en'') (ascii ''x'') 1"
      "\<lambda>s. s" "ascii ''a''" "ascii ''en''" "\<lparr>c_result = ascii ''x'', c_timestamp = 0, c_tokens = 1\<rparr>"
      3600001 "ascii ''x''" 0 "ascii ''x''" 1]
  by (simp add: initialState_def storeToCache_def getFromCache_def getCacheKey_def trim_def
      isWhiteSpace_def ascii_def map_delete_def map_get_def Let_def)

section \<open>Rate limiter: results\<close>

text \<open>
  Claim C7, as stated, fails: the admission check prunes. After one request recorded at
  time 0 and completed, a check at time 60000 empties both sequences.
\<close>

theorem canMakeRequest_prunes_counterexample:
  "requestTimes (completeRequest (recordRequest initialState 0 5)) = [0]
   \<and> requestTimes (snd (canMakeRequest (completeRequest (recordRequest initialState 0 5)) 60000 0)) = []
   \<and> tokenUsage (snd (canMakeRequest (completeRequest (recordRequest initialState 0 5)) 60000 0)) = []
   \<and> snd (canMakeRequest (completeRequest (recordRequest initialState 0 5)) 60000 0)
       \<noteq> completeRequest (recordRequest initialState 0 5)"
  by (simp add: canMakeRequest_def recordRequest_def completeRequest_def initialState_def Let_def)

lemma canMakeRequest_state:
  "snd (canMakeRequest st now n) =
     st\<lparr>requestTimes := filter (\<lambda>time. time > now - 60000) (requestTimes st),
        tokenUsage := filter (\<lambda>usage. u_timestamp usage > now - 60000) (tokenUsage st)\<rparr>"
  by (simp add: canMakeRequest_def Let_def)

text \<open>
  Claim C7, amended. The admission check adds no record and leaves the count of active
  requests and every other field as it was; of the two sequences it keeps exactly the
  records younger than 60 seconds, in their order, so the figures of the current window
  are unchanged.
\<close>

theorem canMakeRequest_frame:
  "activeRequests (snd (canMakeRequest st now n)) = activeRequests st
   \<and> requestTimes (snd (canMakeRequest st now n)) =
       filter (\<lambda>time. time > now - 60000) (requestTimes st)
   \<and> tokenUsage (snd (canMakeRequest st now n)) =
       filter (\<lambda>usage. u_timestamp usage > now - 60000) (tokenUsage st)
   \<and> snd (canMakeRequest st now n) =
       st\<lparr>requestTimes := requestTimes (snd (canMakeRequest st now n)),
          tokenUsage := tokenUsage (snd (canMakeRequest st now n))\<rparr>
   \<and> requestsLastMinute (snd (canMakeRequest st now n)) now = requestsLastMinute st now
   \<and> tokenUsageLastMinute (snd (canMakeRequest st now n)) now = tokenUsageLastMinute st now"
  by (simp add: canMakeRequest_state requestsLastMinute_def tokenUsageLastMinute_def)

section \<open>Batch assembly: results\<close>

lemma estimateTokens_asciiText: "estimateTokens (asciiText (4 * n)) = n"
  by (simp add: estimateTokens_def asciiText_def isBasicCJK_def)

lemma estimateTokens_20000: "estimateTokens (asciiText 20000) = 5000"
  using estimateTokens_asciiText [of 5000] by simp

lemma estimateTokens_75000: "estimateTokens (asciiText 75000) = 18750"
  using estimateTokens_asciiText [of 18750] by simp

lemma estimateTokens_55000: "estimateTokens (asciiText 55000) = 13750"
  using estimateTokens_asciiText [of 13750] by simp

lemmas run_eval = run_def queueTranslation_def getFromCache_def map_get_def truthy_def
  canMakeRequest_def processQueue_def processBatch_def recordRequest_def completeRequest_def
  uniqueItems_def addToGroup_def processGroup_def settleAll_def failingApi_def Let_def
  estimateTokens_20000 estimateTokens_75000 estimateTokens_55000

text \<open>The state the run reaches: the window holds 75000 tokens, two items wait.\<close>

lemma overshoot_state:
  "run lc failingApi initialState overshootEvents =
     \<lparr>initialized = False, enabled = False,
      rateLimitConfig = \<lparr>rpm = 950, tpm = 75000, maxConcurrent = 5, batchSize = 10\<rparr>,
      requestTimes = [0, 1000, 1000, 1000, 1000],
      tokenUsage =
        [\<lparr>u_timestamp = 0, u_tokens = 5000\<rparr>, \<lparr>u_timestamp = 1000, u_tokens = 18750\<rparr>,
         \<lparr>u_timestamp = 1000, u_tokens = 18750\<rparr>, \<lparr>u_timestamp = 1000, u_tokens = 18750\<rparr>,
         \<lparr>u_timestamp = 1000, u_tokens = 13750\<rparr>],
      activeRequests = 0,
      translationQueue =
        [\<lparr>q_id = 5, q_text = asciiText 20000, q_targetLanguage = ascii ''en'', q_priority = 3,
          q_estimatedTokens = 5000, q_timestamp = 2000\<rparr>,
         \<lparr>q_id = 6, q_text = asciiText 20000, q_targetLanguage = ascii ''en'', q_priority = 3,
          q_estimatedTokens = 5000, q_timestamp = 2000\<rparr>],
      isProcessingQueue = False, translationCache = [], maxCacheSize = 1000,
      cacheHitCount = 0, cacheMissCount = 12, nextId = 7,
      apiLog =
        [(asciiText 20000, ascii ''en''), (asciiText 75000, ascii ''en''),
         (asciiText 75000, ascii ''en''), (asciiText 75000, ascii ''en''),
         (asciiText 55000, ascii ''en'')],
      settledLog =
        [(0, Inl (ApiError 0)), (1, Inl (ApiError 0)), (2, Inl (ApiError 0)),
         (3, Inl (ApiError 0)), (4, Inl (ApiError 0))]\<rparr>"
  by (simp add: overshootEvents_def initialState_def run_eval)

text \<open>
  The timer ticks between the last request and time 60000 find the window full and
  change nothing.
\<close>

lemma overshoot_waits:
  "2000 \<le> t \<Longrightarrow> t < 60000 \<Longrightarrow>
   processQueue lc failingApi (run lc failingApi initialState overshootEvents) t
     = run lc failingApi initialState overshootEvents"
  by (simp add: overshoot_state processQueue_def canMakeRequest_def Let_def)

text \<open>
  Claim C2, evaluated on the code. At time 60000 the record of time 0 leaves the window,
  which then holds 70000 of 75000 tokens. The walk of \<^verbatim>\<open>processQueue\<close> over the sorted
  queue admits both waiting items of 5000 tokens, each checked with its own tokens alone,
  although the check fails for the tokens of the batch so far plus the second item.
\<close>

theorem collectBatch_checks_item_alone:
  "tokenUsageLastMinute (run lc failingApi initialState overshootEvents) 60000 = 70000
   \<and> map q_estimatedTokens (translationQueue (run lc failingApi initialState overshootEvents))
       = [5000, 5000]
   \<and> map q_id (fst (collectBatch
        ((run lc failingApi initialState overshootEvents)
           \<lparr>isProcessingQueue := True,
            translationQueue := sort_key (\<lambda>item. - q_priority item)
              (translationQueue (run lc failingApi initialState overshootEvents))\<rparr>)
        60000
        (sort_key (\<lambda>item. - q_priority item)
           (translationQueue (run lc failingApi initialState overshootEvents)))
        [] 0)) = [5, 6]
   \<and> fst (canMakeRequest (run lc failingApi initialState overshootEvents) 60000 5000) = True
   \<and> fst (canMakeRequest (run lc failingApi initialState overshootEvents) 60000 (5000 + 5000)) = False"
  by (simp add: overshoot_state tokenUsageLastMinute_def canMakeRequest_def Let_def)

text \<open>
  Claim C1, evaluated on the code. The tick at time 60000 dispatches both items and
  records their 10000 tokens: the token-usage events of the trailing 60 seconds then sum
  to 80000, above the limit of 75000, while the five requests stay below the request
  limit.
\<close>

theorem token_ceiling_overshoot:
  "tokenUsageLastMinute (run lc failingApi initialState (overshootEvents @ [(60000, Tick)])) 60000
     = 80000
   \<and> tpm (rateLimitConfig (run lc failingApi initialState (overshootEvents @ [(60000, Tick)])))
     = 75000
   \<and> requestsLastMinute (run lc failingApi initialState (overshootEvents @ [(60000, Tick)])) 60000
     = 5
   \<and> translationQueue (run lc failingApi initialState (overshootEvents @ [(60000, Tick)])) = []"
proof -
  have "run lc failingApi initialState (overshootEvents @ [(60000, Tick)]) =
      processQueue lc failingApi (run lc failingApi initialState overshootEvents) 60000"
    by (simp add: run_def)
  then show ?thesis
    by (simp add: overshoot_state tokenUsageLastMinute_def requestsLastMinute_def
        processQueue_def processBatch_def canMakeRequest_def recordRequest_def completeRequest_def
        uniqueItems_def addToGroup_def processGroup_def settleAll_def failingApi_def
        getFromCache_def map_get_def truthy_def Let_def)
qed

text \<open>
  The walk never skips an item: the batch is the batch so far followed by a prefix of the
  items still to visit.
\<close>

lemma collectBatch_prefix:
  "\<exists>k. fst (collectBatch st now items batchItems tot) = batchItems @ take k items"
proof (induction items arbitrary: st batchItems tot)
  case Nil
  then show ?case by simp
next
  case (Cons item rest)
  show ?case
  proof (cases "length batchItems \<ge> batchSize (rateLimitConfig st)
      \<or> real (tot + q_estimatedTokens item) > real (tpm (rateLimitConfig st)) / 4
      \<or> \<not> fst (canMakeRequest st now (q_estimatedTokens item))")
    case True
    then have "fst (collectBatch st now (item # rest) batchItems tot) = batchItems @ take 0 (item # rest)"
      by (auto split: prod.splits bool.splits)
    then show ?thesis by blast
  next
    case False
    then obtain st1 where c: "canMakeRequest st now (q_estimatedTokens item) = (True, st1)"
      by (cases "canMakeRequest st now (q_estimatedTokens item)") auto
    from Cons.IH [of st1 "batchItems @ [item]" "tot + q_estimatedTokens item"]
    obtain k where "fst (collectBatch st1 now rest (batchItems @ [item]) (tot + q_estimatedTokens item))
        = (batchItems @ [item]) @ take k rest" by blast
    with False c have "fst (collectBatch st now (item # rest) batchItems tot)
        = batchItems @ take (Suc k) (item # rest)"
      by simp
    then show ?thesis by blast
  qed
qed

section \<open>The request limit holds\<close>

text \<open>
  The other half of the rate ceiling: one request is recorded per batch, in the same
  synchronous step as the admission check that found fewer than \<open>rpm\<close> records in the
  window. So along any run in time order the number of requests in the trailing 60
  seconds never exceeds \<open>rpm\<close>.
\<close>

lemma requestsLastMinute_mono:
  "t \<le> t' \<Longrightarrow> requestsLastMinute st t' \<le> requestsLastMinute st t"
proof -
  assume le: "t \<le> t'"
  have "filter (\<lambda>time. time > t' - 60000) (requestTimes st)
      = filter (\<lambda>time. time > t' - 60000) (filter (\<lambda>time. time > t - 60000) (requestTimes st))"
    using le by (auto intro: filter_cong)
  then show ?thesis
    unfolding requestsLastMinute_def by (metis length_filter_le)
qed

lemma canMakeRequest_config [simp]:
  "rateLimitConfig (snd (canMakeRequest st now n)) = rateLimitConfig st"
  by (simp add: canMakeRequest_state)

lemma canMakeRequest_requestTimes:
  "requestTimes (snd (canMakeRequest st now n)) = filter (\<lambda>time. time > now - 60000) (requestTimes st)"
  by (simp add: canMakeRequest_state)

lemma canMakeRequest_admits:
  "fst (canMakeRequest st now n) \<Longrightarrow>
   length (filter (\<lambda>time. time > now - 60000) (requestTimes st)) < rpm (rateLimitConfig st)"
  by (auto simp: canMakeRequest_def Let_def split: if_splits)

lemma collectBatch_window:
  "rateLimitConfig (snd (collectBatch st now items b tot)) = rateLimitConfig st
   \<and> (requestTimes (snd (collectBatch st now items b tot)) = requestTimes st
      \<or> requestTimes (snd (collectBatch st now items b tot))
          = filter (\<lambda>time. time > now - 60000) (requestTimes st))
   \<and> (fst (collectBatch st now items b tot) \<noteq> b \<longrightarrow>
        requestTimes (snd (collectBatch st now items b tot))
          = filter (\<lambda>time. time > now - 60000) (requestTimes st)
        \<and> length (filter (\<lambda>time. time > now - 60000) (requestTimes st)) < rpm (rateLimitConfig st))"
proof (induction items arbitrary: st b tot)
  case Nil
  then show ?case by simp
next
  case (Cons item rest)
  let ?W = "filter (\<lambda>time. time > now - 60000)"
  show ?case
  proof (cases "length b \<ge> batchSize (rateLimitConfig st)
      \<or> real (tot + q_estimatedTokens item) > real (tpm (rateLimitConfig st)) / 4")
    case True
    then show ?thesis by auto
  next
    case False
    obtain ok st1 where c: "canMakeRequest st now (q_estimatedTokens item) = (ok, st1)"
      by (cases "canMakeRequest st now (q_estimatedTokens item)") auto
    then have st1: "requestTimes st1 = ?W (requestTimes st)" "rateLimitConfig st1 = rateLimitConfig st"
      using canMakeRequest_requestTimes [of st now "q_estimatedTokens item"]
        canMakeRequest_config [of st now "q_estimatedTokens item"] by simp_all
    show ?thesis
    proof (cases ok)
      case False
      with \<open>\<not> (length b \<ge> batchSize (rateLimitConfig st)
          \<or> real (tot + q_estimatedTokens item) > real (tpm (rateLimitConfig st)) / 4)\<close> c st1
      show ?thesis by simp
    next
      case True
      with c have adm: "length (?W (requestTimes st)) < rpm (rateLimitConfig st)"
        using canMakeRequest_admits [of st now "q_estimatedTokens item"] by simp
      let ?r = "collectBatch st1 now rest (b @ [item]) (tot + q_estimatedTokens item)"
      from Cons.IH [of st1 "b @ [item]" "tot + q_estimatedTokens item"]
      have ih: "rateLimitConfig (snd ?r) = rateLimitConfig st1"
        "requestTimes (snd ?r) = requestTimes st1 \<or> requestTimes (snd ?r) = ?W (requestTimes st1)"
        by blast+
      have eq: "collectBatch st now (item # rest) b tot = ?r"
        using \<open>\<not> (length b \<ge> batchSize (rateLimitConfig st)
          \<or> real (tot + q_estimatedTokens item) > real (tpm (rateLimitConfig st)) / 4)\<close> c True
        by simp
      have "requestTimes (snd ?r) = ?W (requestTimes st)"
        using ih(2) st1(1) by auto
      with ih(1) st1(2) adm show ?thesis unfolding eq by simp
    qed
  qed
qed

lemma getFromCache_rate [simp]:
  "requestTimes (snd (getFromCache lc st now t l)) = requestTimes st"
  "rateLimitConfig (snd (getFromCache lc st now t l)) = rateLimitConfig st"
  by (simp_all add: getFromCache_def Let_def split: option.splits)

lemma storeToCache_rate [simp]:
  "requestTimes (storeToCache lc st now t l r n) = requestTimes st"
  "rateLimitConfig (storeToCache lc st now t l r n) = rateLimitConfig st"
  by (simp_all add: storeToCache_def Let_def)

lemma processGroup_rate [simp]:
  "requestTimes (processGroup lc api now st g) = requestTimes st"
  "rateLimitConfig (processGroup lc api now st g) = rateLimitConfig st"
proof -
  obtain cached st1 where c: "getFromCache lc st now (q_text (hd g)) (q_targetLanguage (hd g)) = (cached, st1)"
    by (cases "getFromCache lc st now (q_text (hd g)) (q_targetLanguage (hd g))") auto
  then have "requestTimes st1 = requestTimes st" "rateLimitConfig st1 = rateLimitConfig st"
    using getFromCache_rate [of lc st now "q_text (hd g)" "q_targetLanguage (hd g)"] by simp_all
  with c show "requestTimes (processGroup lc api now st g) = requestTimes st"
    "rateLimitConfig (processGroup lc api now st g) = rateLimitConfig st"
    by (cases g; simp add: processGroup_def settleAll_def Let_def split: option.splits sum.splits)+
qed

lemma foldl_processGroup_rate [simp]:
  "requestTimes (foldl (processGroup lc api now) st gs) = requestTimes st"
  "rateLimitConfig (foldl (processGroup lc api now) st gs) = rateLimitConfig st"
  by (induction gs arbitrary: st) simp_all

lemma processBatch_rate:
  "items \<noteq> [] \<Longrightarrow> requestTimes (processBatch lc api st now items) = requestTimes st @ [now]"
  "rateLimitConfig (processBatch lc api st now items) = rateLimitConfig st"
  by (simp_all add: processBatch_def recordRequest_def completeRequest_def Let_def)

lemma processQueue_config [simp]:
  "rateLimitConfig (processQueue lc api st now) = rateLimitConfig st"
proof -
  let ?st2 = "st\<lparr>isProcessingQueue := True,
      translationQueue := sort_key (\<lambda>item. - q_priority item) (translationQueue st)\<rparr>"
  obtain batch st3 where cb: "collectBatch ?st2 now (translationQueue ?st2) [] 0 = (batch, st3)"
    by (cases "collectBatch ?st2 now (translationQueue ?st2) [] 0") auto
  with collectBatch_window [of ?st2 now "translationQueue ?st2" "[]" 0]
  have "rateLimitConfig st3 = rateLimitConfig st" by simp
  with cb show ?thesis
    by (simp add: processQueue_def Let_def processBatch_rate)
qed

lemma processQueue_requests:
  assumes "requestsLastMinute st now \<le> rpm (rateLimitConfig st)"
  shows "requestsLastMinute (processQueue lc api st now) now \<le> rpm (rateLimitConfig st)"
proof (cases "isProcessingQueue st \<or> translationQueue st = []")
  case True
  with assms show ?thesis by (simp add: processQueue_def)
next
  case False
  let ?W = "filter (\<lambda>time. time > now - 60000)"
  let ?st2 = "st\<lparr>isProcessingQueue := True,
      translationQueue := sort_key (\<lambda>item. - q_priority item) (translationQueue st)\<rparr>"
  obtain batch st3 where cb: "collectBatch ?st2 now (translationQueue ?st2) [] 0 = (batch, st3)"
    by (cases "collectBatch ?st2 now (translationQueue ?st2) [] 0") auto
  from collectBatch_window [of ?st2 now "translationQueue ?st2" "[]" 0] cb
  have w: "requestTimes st3 = requestTimes st \<or> requestTimes st3 = ?W (requestTimes st)"
    and adm: "batch \<noteq> [] \<longrightarrow> requestTimes st3 = ?W (requestTimes st)
        \<and> length (?W (requestTimes st)) < rpm (rateLimitConfig st)"
    by auto
  show ?thesis
  proof (cases "batch = []")
    case True
    from w have "?W (requestTimes st3) = ?W (requestTimes st)" by auto
    with assms False cb True show ?thesis
      by (simp add: processQueue_def Let_def requestsLastMinute_def)
  next
    case ne: False
    with adm have "requestTimes st3 = ?W (requestTimes st)"
      and "length (?W (requestTimes st)) < rpm (rateLimitConfig st)" by auto
    with False cb ne show ?thesis
      by (simp add: processQueue_def Let_def requestsLastMinute_def processBatch_rate)
  qed
qed

lemma queueTranslation_config [simp]:
  "rateLimitConfig (snd (queueTranslation lc api st now body lang priority)) = rateLimitConfig st"
  by (simp add: queueTranslation_def Let_def case_prod_unfold split: option.splits)

lemma step_config [simp]: "rateLimitConfig (step lc api st ev) = rateLimitConfig st"
proof (cases ev)
  case (Pair now e)
  then show ?thesis by (cases e) simp_all
qed

lemma step_requests:
  assumes "requestsLastMinute st now \<le> rpm (rateLimitConfig st)"
  shows "requestsLastMinute (step lc api st (now, e)) now \<le> rpm (rateLimitConfig st)"
proof (cases e)
  case Tick
  with assms show ?thesis by (simp add: processQueue_requests)
next
  case (Enqueue body lang priority)
  obtain cached st1 where c: "getFromCache lc st now body lang = (cached, st1)"
    by (cases "getFromCache lc st now body lang") auto
  then have st1: "requestTimes st1 = requestTimes st" "rateLimitConfig st1 = rateLimitConfig st"
    using getFromCache_rate [of lc st now body lang] by simp_all
  show ?thesis
  proof (cases "if truthy cached then cached else None")
    case (Some result)
    with Enqueue c st1 assms show ?thesis
      by (simp add: queueTranslation_def requestsLastMinute_def)
  next
    case None
    let ?item = "\<lparr>q_id = nextId st1, q_text = body, q_targetLanguage = lang, q_priority = priority,
        q_estimatedTokens = estimateTokens body, q_timestamp = now\<rparr>"
    let ?st2 = "st1\<lparr>translationQueue := translationQueue st1 @ [?item], nextId := nextId st1 + 1\<rparr>"
    let ?st3 = "snd (canMakeRequest ?st2 now (estimateTokens body))"
    have r3: "requestsLastMinute ?st3 now \<le> rpm (rateLimitConfig ?st3)"
      using assms st1 by (simp add: canMakeRequest_state requestsLastMinute_def)
    have cfg: "rateLimitConfig ?st3 = rateLimitConfig st"
      using st1 by simp
    have "queueTranslation lc api st now body lang priority =
        (Inr (nextId st1),
         if fst (canMakeRequest ?st2 now (estimateTokens body)) \<and> \<not> isProcessingQueue ?st3
         then processQueue lc api ?st3 now else ?st3)"
      unfolding queueTranslation_def c prod.case None option.case
      by (simp add: Let_def case_prod_unfold)
    then have "step lc api st (now, e) = ?st3 \<or> step lc api st (now, e) = processQueue lc api ?st3 now"
      using Enqueue by simp
    then show ?thesis
      using r3 processQueue_requests [OF r3, of lc api] cfg by auto
  qed
qed

lemma run_requests:
  assumes "requestsLastMinute st t0 \<le> rpm (rateLimitConfig st)"
    and "sorted (t0 # map fst events)"
    and "last (t0 # map fst events) \<le> t"
  shows "requestsLastMinute (run lc api st events) t \<le> rpm (rateLimitConfig st)"
  using assms
proof (induction events arbitrary: st t0)
  case Nil
  then show ?case
    using requestsLastMinute_mono [of t0 t st] by (simp add: run_def)
next
  case (Cons ev events)
  obtain now e where ev: "ev = (now, e)" by (cases ev)
  from Cons.prems(2) ev have le: "t0 \<le> now" and srt: "sorted (now # map fst events)" by simp_all
  from Cons.prems(1) le have "requestsLastMinute st now \<le> rpm (rateLimitConfig st)"
    using requestsLastMinute_mono [of t0 now st] by simp
  then have a: "requestsLastMinute (step lc api st (now, e)) now
      \<le> rpm (rateLimitConfig (step lc api st (now, e)))"
    using step_requests [of st now lc api e] by simp
  from Cons.prems(3) ev have b: "last (now # map fst events) \<le> t" by simp
  from Cons.IH [OF a srt b] show ?case by (simp add: run_def ev)
qed

text \<open>From the initial state, for every run in time order and every later instant.\<close>

lemma request_ceiling:
  "sorted (map fst events) \<Longrightarrow> events \<noteq> [] \<Longrightarrow> last (map fst events) \<le> t \<Longrightarrow>
   requestsLastMinute (run lc api initialState events) t \<le> rpm (rateLimitConfig initialState)"
proof -
  assume s: "sorted (map fst events)" and ne: "events \<noteq> []" and l: "last (map fst events) \<le> t"
  have 0: "requestsLastMinute initialState (fst (hd events)) \<le> rpm (rateLimitConfig initialState)"
    by (simp add: requestsLastMinute_def initialState_def)
  from s ne have 1: "sorted (fst (hd events) # map fst events)" by (cases events) auto
  from l ne have 2: "last (fst (hd events) # map fst events) \<le> t" by (cases events) auto
  from 0 1 2 show ?thesis by (rule run_requests)
qed

section \<open>Batch dispatch: results\<close>

text \<open>The fingerprint of an item and of a call to the translation capability.\<close>

lemma mset_concat_map_set_new:
  "k \<notin> set (map fst m) \<Longrightarrow> mset (concat (map snd (map_set m k v))) = mset (concat (map snd m)) + mset v"
  by (induction m) auto

lemma mset_concat_map_set_old:
  "map_of m k = Some g \<Longrightarrow>
   mset (concat (map snd (map_set m k (g @ [x])))) = mset (concat (map snd m)) + {#x#}"
  by (induction m) (auto split: if_splits)

lemma map_of_None_keys: "map_of m k = None \<Longrightarrow> k \<notin> set (map fst m)"
  by (induction m) (auto split: if_splits)

lemma mset_addToGroup:
  "mset (concat (map snd (addToGroup groups k item))) = mset (concat (map snd groups)) + {#item#}"
proof (cases "map_of groups k")
  case None
  then have "k \<notin> set (map fst groups)" by (rule map_of_None_keys)
  then have "mset (concat (map snd (map_set groups k [item]))) = mset (concat (map snd groups)) + mset [item]"
    by (rule mset_concat_map_set_new)
  with None show ?thesis by (simp add: addToGroup_def map_get_def)
next
  case (Some g)
  then show ?thesis by (simp add: addToGroup_def map_get_def mset_concat_map_set_old)
qed

lemma set_map_set:
  "(k', g') \<in> set (map_set m k v) \<Longrightarrow> (k' = k \<and> g' = v) \<or> (k', g') \<in> set m"
  by (induction m) (auto split: if_splits)

text \<open>
  The invariant of the grouping loop: keys are distinct, no group is empty, and every
  member of a group has the key of the group as its fingerprint.
\<close>

lemma addToGroup_keys:
  "distinct (map fst groups) \<Longrightarrow> distinct (map fst (addToGroup groups k item))"
  by (simp add: addToGroup_def distinct_map_set split: option.splits)

lemma addToGroup_members:
  assumes "\<forall>(k', g) \<in> set groups. g \<noteq> [] \<and> (\<forall>i \<in> set g. fp i = k')" and "fp item = k"
  shows "\<forall>(k', g) \<in> set (addToGroup groups k item). g \<noteq> [] \<and> (\<forall>i \<in> set g. fp i = k')"
proof (cases "map_of groups k")
  case None
  then show ?thesis
    using assms by (auto simp: addToGroup_def map_get_def dest!: set_map_set)
next
  case (Some g0)
  then have "(k, g0) \<in> set groups" by (rule map_of_SomeD)
  with assms have "\<forall>i \<in> set g0. fp i = k" by auto
  with Some show ?thesis
    using assms by (auto simp: addToGroup_def map_get_def dest!: set_map_set)
qed

lemma uniqueItems_fold:
  assumes "distinct (map fst groups)"
    and "\<forall>(k, g) \<in> set groups. g \<noteq> [] \<and> (\<forall>i \<in> set g. getCacheKey lc (q_text i) (q_targetLanguage i) = k)"
  shows "distinct (map fst (foldl (\<lambda>groups item. addToGroup groups
             (getCacheKey lc (q_text item) (q_targetLanguage item)) item) groups items))
    \<and> (\<forall>(k, g) \<in> set (foldl (\<lambda>groups item. addToGroup groups
             (getCacheKey lc (q_text item) (q_targetLanguage item)) item) groups items).
          g \<noteq> [] \<and> (\<forall>i \<in> set g. getCacheKey lc (q_text i) (q_targetLanguage i) = k))
    \<and> mset (concat (map snd (foldl (\<lambda>groups item. addToGroup groups
             (getCacheKey lc (q_text item) (q_targetLanguage item)) item) groups items)))
        = mset (concat (map snd groups)) + mset items"
  using assms
proof (induction items arbitrary: groups)
  case Nil
  then show ?case by simp
next
  case (Cons item items)
  let ?g1 = "addToGroup groups (getCacheKey lc (q_text item) (q_targetLanguage item)) item"
  have d: "distinct (map fst ?g1)" using Cons.prems(1) by (rule addToGroup_keys)
  have m: "\<forall>(k, g) \<in> set ?g1. g \<noteq> [] \<and> (\<forall>i \<in> set g. getCacheKey lc (q_text i) (q_targetLanguage i) = k)"
    using Cons.prems(2) by (rule addToGroup_members) simp
  from Cons.IH [OF d m] show ?case by (simp add: mset_addToGroup)
qed

lemma uniqueItems_props:
  "distinct (map fst (uniqueItems lc items))
   \<and> (\<forall>(k, g) \<in> set (uniqueItems lc items).
         g \<noteq> [] \<and> (\<forall>i \<in> set g. getCacheKey lc (q_text i) (q_targetLanguage i) = k))
   \<and> mset (concat (map snd (uniqueItems lc items))) = mset items"
  unfolding uniqueItems_def
  using uniqueItems_fold [of "[]" lc items] by simp

text \<open>The logs are touched by \<open>processGroup\<close> only.\<close>

lemma getFromCache_logs [simp]:
  "apiLog (snd (getFromCache lc st now t l)) = apiLog st"
  "settledLog (snd (getFromCache lc st now t l)) = settledLog st"
  by (simp_all add: getFromCache_def Let_def split: option.splits)

lemma storeToCache_logs [simp]:
  "apiLog (storeToCache lc st now t l r n) = apiLog st"
  "settledLog (storeToCache lc st now t l r n) = settledLog st"
  by (simp_all add: storeToCache_def Let_def)

text \<open>
  One group: at most one call, for the first item of the group, and one outcome for all
  its members.
\<close>

lemma processGroup_effect:
  assumes "g \<noteq> []"
  shows "\<exists>out calls.
     settledLog (processGroup lc api now st g) = settledLog st @ map (\<lambda>item. (q_id item, out)) g
     \<and> apiLog (processGroup lc api now st g) = apiLog st @ calls
     \<and> (calls = [] \<or> calls = [(q_text (hd g), q_targetLanguage (hd g))])"
proof -
  from assms obtain firstItem others where g: "g = firstItem # others" by (cases g) auto
  obtain cached st1 where c: "getFromCache lc st now (q_text firstItem) (q_targetLanguage firstItem) = (cached, st1)"
    by (cases "getFromCache lc st now (q_text firstItem) (q_targetLanguage firstItem)") auto
  then have logs: "apiLog st1 = apiLog st" "settledLog st1 = settledLog st"
    using getFromCache_logs [of lc st now "q_text firstItem" "q_targetLanguage firstItem"] by simp_all
  show ?thesis
  proof (cases "if truthy cached then cached else None")
    case (Some result)
    with g c logs show ?thesis
      by (simp add: processGroup_def settleAll_def)
  next
    case None
    show ?thesis
    proof (cases "api (length (apiLog st1)) (q_text firstItem) (q_targetLanguage firstItem)")
      case (Inl err)
      with g c logs None show ?thesis
        by (simp add: processGroup_def settleAll_def Let_def)
    next
      case (Inr result)
      with g c logs None show ?thesis
        by (cases "result = []") (simp_all add: processGroup_def settleAll_def Let_def)
    qed
  qed
qed

text \<open>
  All groups: the settlements are those of the groups in turn, each group with one
  outcome; the calls have distinct fingerprints among those of the first items.
\<close>

lemma foldl_processGroup_effect:
  assumes "\<forall>g \<in> set gs. g \<noteq> []"
    and "distinct (map (\<lambda>g. fp (q_text (hd g), q_targetLanguage (hd g))) gs)"
  shows "\<exists>outs calls. length outs = length gs
     \<and> settledLog (foldl (processGroup lc api now) st gs) =
         settledLog st @ concat (map (\<lambda>(g, out). map (\<lambda>item. (q_id item, out)) g) (zip gs outs))
     \<and> apiLog (foldl (processGroup lc api now) st gs) = apiLog st @ calls
     \<and> distinct (map fp calls)
     \<and> set (map fp calls) \<subseteq> set (map (\<lambda>g. fp (q_text (hd g), q_targetLanguage (hd g))) gs)"
  using assms
proof (induction gs arbitrary: st)
  case Nil
  then show ?case by simp
next
  case (Cons g gs)
  let ?st1 = "processGroup lc api now st g"
  from Cons.prems have ne: "g \<noteq> []" by simp
  from processGroup_effect [OF ne, of lc api now st]
  obtain out c where
    s1: "settledLog ?st1 = settledLog st @ map (\<lambda>item. (q_id item, out)) g"
    and a1: "apiLog ?st1 = apiLog st @ c"
    and c1: "c = [] \<or> c = [(q_text (hd g), q_targetLanguage (hd g))]"
    by blast
  from Cons.prems have p1: "\<forall>g \<in> set gs. g \<noteq> []"
    and p2: "distinct (map (\<lambda>g. fp (q_text (hd g), q_targetLanguage (hd g))) gs)"
    and p3: "fp (q_text (hd g), q_targetLanguage (hd g))
               \<notin> set (map (\<lambda>g. fp (q_text (hd g), q_targetLanguage (hd g))) gs)"
    by simp_all
  from Cons.IH [OF p1 p2, of ?st1]
  obtain outs calls where l: "length outs = length gs"
    and s2: "settledLog (foldl (processGroup lc api now) ?st1 gs) =
         settledLog ?st1 @ concat (map (\<lambda>(g, out). map (\<lambda>item. (q_id item, out)) g) (zip gs outs))"
    and a2: "apiLog (foldl (processGroup lc api now) ?st1 gs) = apiLog ?st1 @ calls"
    and d2: "distinct (map fp calls)"
    and sub2: "set (map fp calls) \<subseteq> set (map (\<lambda>g. fp (q_text (hd g), q_targetLanguage (hd g))) gs)"
    by blast
  have "length (out # outs) = length (g # gs)" using l by simp
  moreover have "settledLog (foldl (processGroup lc api now) st (g # gs)) =
      settledLog st @ concat (map (\<lambda>(g, out). map (\<lambda>item. (q_id item, out)) g) (zip (g # gs) (out # outs)))"
    using s1 s2 by simp
  moreover have "apiLog (foldl (processGroup lc api now) st (g # gs)) = apiLog st @ (c @ calls)"
    using a1 a2 by simp
  moreover have "distinct (map fp (c @ calls))"
    using c1 d2 sub2 p3 by auto
  moreover have "set (map fp (c @ calls)) \<subseteq>
      set (map (\<lambda>g. fp (q_text (hd g), q_targetLanguage (hd g))) (g # gs))"
    using c1 sub2 by auto
  ultimately show ?case by blast
qed

lemma map_fst_settlements:
  "length outs = length gs \<Longrightarrow>
   map fst (concat (map (\<lambda>(g, out). map (\<lambda>item. (q_id item, out)) g) (zip gs outs)))
     = map q_id (concat gs)"
  by (induction gs outs rule: list_induct2') (auto simp: comp_def)

lemma settlement_member:
  assumes "n < length gs" and "length outs = length gs" and "i \<in> set (gs ! n)"
  shows "(q_id i, outs ! n)
     \<in> set (concat (map (\<lambda>(g, out). map (\<lambda>item. (q_id item, out)) g) (zip gs outs)))"
proof -
  from assms have "(gs ! n, outs ! n) \<in> set (zip gs outs)"
    by (auto simp: set_zip)
  with assms(3) show ?thesis by force
qed

lemma recordRequest_logs [simp]:
  "apiLog (recordRequest st now n) = apiLog st"
  "settledLog (recordRequest st now n) = settledLog st"
  by (simp_all add: recordRequest_def)

lemma completeRequest_logs [simp]:
  "apiLog (completeRequest st) = apiLog st"
  "settledLog (completeRequest st) = settledLog st"
  by (simp_all add: completeRequest_def)

text \<open>
  Claim C3. For every batch (its items distinct objects) the calls made to the translation
  capability during the batch have pairwise distinct fingerprints, so at most one call
  is made per fingerprint; every item is settled exactly once; and two items with the
  same fingerprint are settled with the same outcome, the same result or the same error.
\<close>

theorem processBatch_dedup:
  assumes "distinct (map q_id items)"
  shows "distinct (map (\<lambda>(t, l). getCacheKey lc t l)
            (drop (length (apiLog st)) (apiLog (processBatch lc api st now items))))
    \<and> mset (map fst (drop (length (settledLog st)) (settledLog (processBatch lc api st now items))))
        = mset (map q_id items)
    \<and> (\<forall>i \<in> set items. \<forall>j \<in> set items.
          getCacheKey lc (q_text i) (q_targetLanguage i) = getCacheKey lc (q_text j) (q_targetLanguage j)
          \<longrightarrow> map_of (drop (length (settledLog st)) (settledLog (processBatch lc api st now items))) (q_id i)
              = map_of (drop (length (settledLog st)) (settledLog (processBatch lc api st now items))) (q_id j)
            \<and> map_of (drop (length (settledLog st)) (settledLog (processBatch lc api st now items))) (q_id i)
              \<noteq> None)"
proof (cases "items = []")
  case True
  then show ?thesis by (simp add: processBatch_def)
next
  case False
  let ?fp = "\<lambda>(t, l). getCacheKey lc t l"
  let ?key = "\<lambda>i. getCacheKey lc (q_text i) (q_targetLanguage i)"
  let ?groups = "uniqueItems lc items"
  let ?gs = "map snd ?groups"
  let ?st1 = "recordRequest st now (sum_list (map q_estimatedTokens items))"
  from uniqueItems_props [of lc items]
  have dk: "distinct (map fst ?groups)"
    and mem: "\<forall>(k, g) \<in> set ?groups. g \<noteq> [] \<and> (\<forall>i \<in> set g. ?key i = k)"
    and ms: "mset (concat ?gs) = mset items"
    by blast+
  have ne: "\<forall>g \<in> set ?gs. g \<noteq> []" using mem by auto
  have hdkey: "?fp (q_text (hd g), q_targetLanguage (hd g)) = k" if "(k, g) \<in> set ?groups" for k g
  proof -
    from that mem have "g \<noteq> []" and "\<forall>i \<in> set g. ?key i = k" by auto
    then show ?thesis by (cases g) auto
  qed
  have keys: "map (\<lambda>g. ?fp (q_text (hd g), q_targetLanguage (hd g))) ?gs = map fst ?groups"
    using hdkey by (auto simp: comp_def)
  have dfp: "distinct (map (\<lambda>g. ?fp (q_text (hd g), q_targetLanguage (hd g))) ?gs)"
    using dk by (simp only: keys)
  from foldl_processGroup_effect [OF ne dfp, of lc api now ?st1]
  obtain outs calls where len: "length outs = length ?gs"
    and sl: "settledLog (foldl (processGroup lc api now) ?st1 ?gs) =
         settledLog ?st1 @ concat (map (\<lambda>(g, out). map (\<lambda>item. (q_id item, out)) g) (zip ?gs outs))"
    and al: "apiLog (foldl (processGroup lc api now) ?st1 ?gs) = apiLog ?st1 @ calls"
    and dc: "distinct (map ?fp calls)"
    by blast
  let ?new = "concat (map (\<lambda>(g, out). map (\<lambda>item. (q_id item, out)) g) (zip ?gs outs))"
  have newCalls: "drop (length (apiLog st)) (apiLog (processBatch lc api st now items)) = calls"
    using False al by (simp add: processBatch_def Let_def)
  have newSettled: "drop (length (settledLog st)) (settledLog (processBatch lc api st now items)) = ?new"
    using False sl by (simp add: processBatch_def Let_def)
  have ids: "map fst ?new = map q_id (concat ?gs)"
    using len by (rule map_fst_settlements)
  have msid: "mset (map fst ?new) = mset (map q_id items)"
    using ms by (simp add: ids)
  have dnew: "distinct (map fst ?new)"
    using assms msid by (metis mset_eq_imp_distinct_iff)
  have same: "map_of ?new (q_id i) = map_of ?new (q_id j) \<and> map_of ?new (q_id i) \<noteq> None"
    if i: "i \<in> set items" and j: "j \<in> set items" and eq: "?key i = ?key j" for i j
  proof -
    from ms have "set (concat ?gs) = set items" by (metis set_mset_mset)
    with i j have "i \<in> set (concat ?gs)" and "j \<in> set (concat ?gs)" by simp_all
    then obtain gi gj where "gi \<in> set ?gs" "i \<in> set gi" "gj \<in> set ?gs" "j \<in> set gj"
      by auto
    then obtain n m where n: "n < length ?gs" "i \<in> set (?gs ! n)"
      and m: "m < length ?gs" "j \<in> set (?gs ! m)"
      by (metis in_set_conv_nth)
    from n have gn: "(fst (?groups ! n), ?gs ! n) \<in> set ?groups"
      by (auto simp: in_set_conv_nth)
    from m have gm: "(fst (?groups ! m), ?gs ! m) \<in> set ?groups"
      by (auto simp: in_set_conv_nth)
    from gn mem n(2) have kn: "?key i = fst (?groups ! n)" by auto
    from gm mem m(2) have km: "?key j = fst (?groups ! m)" by auto
    from kn km eq have "map fst ?groups ! n = map fst ?groups ! m"
      using n(1) m(1) by simp
    moreover have "n < length (map fst ?groups)" "m < length (map fst ?groups)"
      using n(1) m(1) by simp_all
    ultimately have "n = m"
      using dk by (simp only: nth_eq_iff_index_eq)
    with m have mj: "j \<in> set (?gs ! n)" by simp
    from settlement_member [OF n(1) len n(2)] dnew
    have "map_of ?new (q_id i) = Some (outs ! n)" by (rule_tac map_of_is_SomeI)
    moreover from settlement_member [OF n(1) len mj] dnew
    have "map_of ?new (q_id j) = Some (outs ! n)" by (rule_tac map_of_is_SomeI)
    ultimately show ?thesis by simp
  qed
  show ?thesis
    unfolding newCalls newSettled
    using dc msid same by blast
qed

theorem processBatch_dedup_witness:
  "distinct (map q_id
      [\<lparr>q_id = 0, q_text = ascii ''a '', q_targetLanguage = ascii ''en'', q_priority = 3,
        q_estimatedTokens = 1, q_timestamp = 0\<rparr>,
       \<lparr>q_id = 1, q_text = ascii ''b'', q_targetLanguage = ascii ''en'', q_priority = 3,
        q_estimatedTokens = 1, q_timestamp = 0\<rparr>,
       \<lparr>q_id = 2, q_text = ascii ''a'', q_targetLanguage = ascii ''en'', q_priority = 3,
        q_estimatedTokens = 1, q_timestamp = 0\<rparr>])
   \<and> apiLog (processBatch (\<lambda>s. s) (\<lambda>n t l. if n = 0 then Inr (ascii ''x'') else Inl (ApiError 7))
        initialState 0
        [\<lparr>q_id = 0, q_text = ascii ''a '', q_targetLanguage = ascii ''en'', q_priority = 3,
          q_estimatedTokens = 1, q_timestamp = 0\<rparr>,
         \<lparr>q_id = 1, q_text = ascii ''b'', q_targetLanguage = ascii ''en'', q_priority = 3,
          q_estimatedTokens = 1, q_timestamp = 0\<rparr>,
         \<lparr>q_id = 2, q_text = ascii ''a'', q_targetLanguage = ascii ''en'', q_priority = 3,
          q_estimatedTokens = 1, q_timestamp = 0\<rparr>])
       = [(ascii ''a '', ascii ''en''), (ascii ''b'', ascii ''en'')]
   \<and> settledLog (processBatch (\<lambda>s. s) (\<lambda>n t l. if n = 0 then Inr (ascii ''x'') else Inl (ApiError 7))
        initialState 0
        [\<lparr>q_id = 0, q_text = ascii ''a '', q_targetLanguage = ascii ''en'', q_priority = 3,
          q_estimatedTokens = 1, q_timestamp = 0\<rparr>,
         \<lparr>q_id = 1, q_text = ascii ''b'', q_targetLanguage = ascii ''en'', q_priority = 3,
          q_estimatedTokens = 1, q_timestamp = 0\<rparr>,
         \<lparr>q_id = 2, q_text = ascii ''a'', q_targetLanguage = ascii ''en'', q_priority = 3,
          q_estimatedTokens = 1, q_timestamp = 0\<rparr>])
       = [(0, Inr (ascii ''x'')), (2, Inr (ascii ''x'')), (1, Inl (ApiError 7))]"
  using processBatch_dedup [of
      "[\<lparr>q_id = 0, q_text = ascii ''a '', q_targetLanguage = ascii ''en'', q_priority = 3,
         q_estimatedTokens = 1, q_timestamp = 0\<rparr>,
        \<lparr>q_id = 1, q_text = ascii ''b'', q_targetLanguage = ascii ''en'', q_priority = 3,
         q_estimatedTokens = 1, q_timestamp = 0\<rparr>,
        \<lparr>q_id = 2, q_text = ascii ''a'', q_targetLanguage = ascii ''en'', q_priority = 3,
         q_estimatedTokens = 1, q_timestamp = 0\<rparr>]"
      "\<lambda>s. s" initialState "\<lambda>n t l. if n = 0 then Inr (ascii ''x'') else Inl (ApiError 7)" 0]
  by (simp add: processBatch_def uniqueItems_def addToGroup_def processGroup_def settleAll_def
      getFromCache_def storeToCache_def getCacheKey_def map_get_def map_delete_def truthy_def
      recordRequest_def completeRequest_def initialState_def trim_def isWhiteSpace_def ascii_def
      Let_def)

section \<open>Chinese content detection: evaluation\<close>

lemmas classifier_eval = detectChineseContent_def preprocessText_def trim_def isWhiteSpace_def
  isChineseExtended_def isChineseIdeograph_def isBasicCJK_def isAsciiLetter_def isAsciiDigit_def
  matchUrl_def matchWindowsPath_def matchLogPrefix_def matchLogWord_def startsWithIgnoreCase_def
  atLineStart_def asciiLower_def matchCodeBlock_def matchInlineCode_def matchEmail_def
  isEmailLocal_def isEmailDomain_def matchDomain_def matchWhiteSpace_def startsWith_def ascii_def
  Let_def

lemma detectChineseContent_ni_hao: "detectChineseContent [0x4F60, 0x597D]"
  by (simp add: classifier_eval)

section \<open>Translating user input: results\<close>

lemma translateUserInput_resume_rejected:
  "translateUserInput_resume detectApi userInput language (Inl err) =
     Inr (untranslated userInput language)"
  by (simp add: translateUserInput_resume_def tryCatch_def)

lemma translateUserInput_resume_returns:
  "\<exists>r. translateUserInput_resume detectApi userInput language settled = Inr r"
  by (cases settled) (simp_all add: translateUserInput_resume_def tryCatch_def)

lemma translateOrdinary_returns:
  "\<exists>r. fst (translateOrdinary lc detectApi api st now userInput) = Inr r"
proof -
  have r: "\<exists>r. map_sum id Returned (translateUserInput_resume detectApi userInput language settled) = Inr r"
    for language settled
    using translateUserInput_resume_returns [of detectApi userInput language settled] by auto
  show ?thesis
    unfolding translateOrdinary_def Let_def
    by (auto simp: r split: prod.splits sum.splits option.splits)
qed

lemma detectChineseContent_comment: "\<not> detectChineseContent (ascii ''//not a command'')"
  by (simp add: detectChineseContent_def isChineseExtended_def ascii_def)

lemmas detectChineseContent_comment_units =
  detectChineseContent_comment [unfolded ascii_def, simplified]

text \<open>
  With an empty cache and a capability that throws on every call, whatever a tick settles
  is a rejection, and the cache stays empty.
\<close>

lemma processGroup_rejects:
  assumes "translationCache st = []" and "\<forall>n t l. isl (api n t l)"
  shows "translationCache (processGroup lc api now st g) = []
    \<and> (\<exists>new. settledLog (processGroup lc api now st g) = settledLog st @ new
           \<and> (\<forall>p \<in> set new. isl (snd p)))"
proof (cases g)
  case Nil
  with assms show ?thesis by (simp add: processGroup_def)
next
  case (Cons firstItem others)
  from assms(2) obtain err where
    "api (length (apiLog st)) (q_text firstItem) (q_targetLanguage firstItem) = Inl err"
    by (metis isl_def)
  with Cons assms(1) show ?thesis
    by (simp add: processGroup_def getFromCache_def map_get_def truthy_def settleAll_def Let_def)
qed

lemma foldl_processGroup_rejects:
  assumes "translationCache st = []" and "\<forall>n t l. isl (api n t l)"
  shows "translationCache (foldl (processGroup lc api now) st gs) = []
    \<and> (\<exists>new. settledLog (foldl (processGroup lc api now) st gs) = settledLog st @ new
           \<and> (\<forall>p \<in> set new. isl (snd p)))"
  using assms(1)
proof (induction gs arbitrary: st)
  case Nil
  then show ?case by simp
next
  case (Cons g gs)
  from processGroup_rejects [OF Cons.prems assms(2), of lc now g]
  obtain new1 where c1: "translationCache (processGroup lc api now st g) = []"
    and s1: "settledLog (processGroup lc api now st g) = settledLog st @ new1"
    and r1: "\<forall>p \<in> set new1. isl (snd p)" by blast
  from Cons.IH [OF c1]
  obtain new2 where c2: "translationCache (foldl (processGroup lc api now) (processGroup lc api now st g) gs) = []"
    and s2: "settledLog (foldl (processGroup lc api now) (processGroup lc api now st g) gs)
        = settledLog (processGroup lc api now st g) @ new2"
    and r2: "\<forall>p \<in> set new2. isl (snd p)" by blast
  have "settledLog (foldl (processGroup lc api now) st (g # gs)) = settledLog st @ (new1 @ new2)"
    using s1 s2 by simp
  moreover have "\<forall>p \<in> set (new1 @ new2). isl (snd p)" using r1 r2 by auto
  ultimately show ?case using c2 by auto
qed

lemma collectBatch_keeps:
  "translationCache (snd (collectBatch st now items b tot)) = translationCache st
   \<and> settledLog (snd (collectBatch st now items b tot)) = settledLog st"
proof (induction items arbitrary: st b tot)
  case Nil
  then show ?case by simp
next
  case (Cons item rest)
  obtain ok st1 where c: "canMakeRequest st now (q_estimatedTokens item) = (ok, st1)"
    by (cases "canMakeRequest st now (q_estimatedTokens item)") auto
  then have "translationCache st1 = translationCache st" "settledLog st1 = settledLog st"
    using canMakeRequest_state [of st now "q_estimatedTokens item"] by auto
  with c Cons.IH [of st1 "b @ [item]" "tot + q_estimatedTokens item"] show ?case
    by (cases ok) auto
qed

lemma processQueue_rejects:
  assumes "translationCache st = []" and "\<forall>n t l. isl (api n t l)"
  shows "translationCache (processQueue lc api st now) = []
    \<and> (\<exists>new. settledLog (processQueue lc api st now) = settledLog st @ new
           \<and> (\<forall>p \<in> set new. isl (snd p)))"
proof (cases "isProcessingQueue st \<or> translationQueue st = []")
  case True
  with assms show ?thesis by (simp add: processQueue_def)
next
  case False
  let ?st2 = "st\<lparr>isProcessingQueue := True,
      translationQueue := sort_key (\<lambda>item. - q_priority item) (translationQueue st)\<rparr>"
  obtain batch st3 where cb: "collectBatch ?st2 now (translationQueue ?st2) [] 0 = (batch, st3)"
    by (cases "collectBatch ?st2 now (translationQueue ?st2) [] 0") auto
  with collectBatch_keeps [of ?st2 now "translationQueue ?st2" "[]" 0] assms(1)
  have k: "translationCache st3 = []" "settledLog st3 = settledLog st" by simp_all
  show ?thesis
  proof (cases "batch = []")
    case True
    with False cb k show ?thesis by (simp add: processQueue_def Let_def)
  next
    case ne: False
    let ?st1 = "recordRequest st3 now (sum_list (map q_estimatedTokens batch))"
    have "translationCache ?st1 = []" using k by (simp add: recordRequest_def)
    from foldl_processGroup_rejects [OF this assms(2), of lc now "map snd (uniqueItems lc batch)"]
    obtain new where "translationCache (foldl (processGroup lc api now) ?st1 (map snd (uniqueItems lc batch))) = []"
      and "settledLog (foldl (processGroup lc api now) ?st1 (map snd (uniqueItems lc batch)))
          = settledLog ?st1 @ new"
      and "\<forall>p \<in> set new. isl (snd p)" by blast
    with False cb ne k show ?thesis
      by (simp add: processQueue_def processBatch_def completeRequest_def Let_def)
  qed
qed

lemma translateOrdinary_rejected:
  assumes "translationCache st = []" and "\<forall>n t l. isl (api n t l)"
  shows "fst (translateOrdinary lc detectApi api st now userInput)
       = Inr (Returned (untranslated userInput (detectLanguage detectApi userInput)))
     \<or> (\<exists>i. fst (translateOrdinary lc detectApi api st now userInput) = Inr (Awaiting i))"
proof -
  let ?item = "\<lparr>q_id = nextId st, q_text = userInput, q_targetLanguage = ascii ''en'', q_priority = 3,
      q_estimatedTokens = estimateTokens userInput, q_timestamp = now\<rparr>"
  let ?st1 = "st\<lparr>cacheMissCount := cacheMissCount st + 1\<rparr>"
  let ?st2 = "?st1\<lparr>translationQueue := translationQueue ?st1 @ [?item], nextId := nextId ?st1 + 1\<rparr>"
  let ?st3 = "snd (canMakeRequest ?st2 now (estimateTokens userInput))"
  let ?st4 = "if fst (canMakeRequest ?st2 now (estimateTokens userInput)) \<and> \<not> isProcessingQueue ?st3
      then processQueue lc api ?st3 now else ?st3"
  have q: "queueTranslation lc api st now userInput (ascii ''en'') 3 = (Inr (nextId st), ?st4)"
    using assms(1)
    by (simp add: queueTranslation_def getFromCache_def map_get_def truthy_def Let_def case_prod_unfold)
  have c3: "translationCache ?st3 = []" and s3: "settledLog ?st3 = settledLog st"
    using assms(1) by (simp_all add: canMakeRequest_state)
  from processQueue_rejects [OF c3 assms(2), of lc now] s3
  obtain new where "settledLog (processQueue lc api ?st3 now) = settledLog st @ new"
    and "\<forall>p \<in> set new. isl (snd p)" by auto
  then obtain new' where s4: "settledLog ?st4 = settledLog st @ new'"
    and r4: "\<forall>p \<in> set new'. isl (snd p)"
    using s3 by (cases "fst (canMakeRequest ?st2 now (estimateTokens userInput)) \<and> \<not> isProcessingQueue ?st3") auto
  have look: "map_of (drop (length (settledLog st)) (settledLog ?st4)) (nextId st) = Some out \<Longrightarrow> isl out" for out
  proof -
    assume "map_of (drop (length (settledLog st)) (settledLog ?st4)) (nextId st) = Some out"
    then have "(nextId st, out) \<in> set new'" unfolding s4 by (simp add: map_of_SomeD)
    with r4 show "isl out" by auto
  qed
  show ?thesis
  proof (cases "map_of (drop (length (settledLog st)) (settledLog ?st4)) (nextId st)")
    case None
    then show ?thesis
      unfolding translateOrdinary_def Let_def q by (auto simp: untranslated_def)
  next
    case (Some out)
    with look obtain err where "out = Inl err" by (metis isl_def)
    with Some show ?thesis
      unfolding translateOrdinary_def Let_def q
      by (auto simp: translateUserInput_resume_rejected)
  qed
qed

text \<open>
  Claim C6. When the call to the translation capability throws, the \<^verbatim>\<open>catch\<close> of
  \<^verbatim>\<open>processBatch\<close> rejects every waiting item of the group with that error; when the
  awaited \<^verbatim>\<open>queueTranslation\<close> rejects, \<^verbatim>\<open>translateUserInput\<close> returns the input as
  \<^verbatim>\<open>translatedText\<close> with \<^verbatim>\<open>wasTranslated\<close> false; whatever the input and the
  behaviour of the capabilities, no exception escapes from \<^verbatim>\<open>translateUserInput\<close>; and
  with nothing in the cache and a capability that throws on every call, a call of
  \<^verbatim>\<open>translateUserInput\<close> that returns within its tick returns the input untranslated.
\<close>

theorem translateUserInput_fallback:
  "(\<not> truthy (fst (getFromCache lc st now (q_text firstItem) (q_targetLanguage firstItem)))
      \<and> api (length (apiLog st)) (q_text firstItem) (q_targetLanguage firstItem) = Inl err \<longrightarrow>
        drop (length (settledLog st)) (settledLog (processGroup lc api now st (firstItem # others)))
          = map (\<lambda>item. (q_id item, Inl err)) (firstItem # others))
   \<and> translateUserInput_resume detectApi userInput language (Inl err) =
        Inr \<lparr>translatedText = userInput, originalText = userInput, wasTranslated = False,
             detectedLanguage = language\<rparr>
   \<and> (\<exists>r. fst (translateUserInput lc loadConfig detectApi api st now userInput) = Inr r)
   \<and> (translationCache st = [] \<and> (\<forall>n t l. isl (api n t l)) \<longrightarrow>
        fst (translateUserInput lc loadConfig detectApi api st now userInput) =
          Inr (Returned \<lparr>translatedText = userInput, originalText = userInput, wasTranslated = False,
                         detectedLanguage = detectLanguage detectApi userInput\<rparr>)
        \<or> (\<exists>i. fst (translateUserInput lc loadConfig detectApi api st now userInput)
                 = Inr (Awaiting i)))"
proof (intro conjI impI)
  assume a: "\<not> truthy (fst (getFromCache lc st now (q_text firstItem) (q_targetLanguage firstItem)))
      \<and> api (length (apiLog st)) (q_text firstItem) (q_targetLanguage firstItem) = Inl err"
  obtain cached st1 where c: "getFromCache lc st now (q_text firstItem) (q_targetLanguage firstItem) = (cached, st1)"
    by (cases "getFromCache lc st now (q_text firstItem) (q_targetLanguage firstItem)") auto
  then have logs: "apiLog st1 = apiLog st" "settledLog st1 = settledLog st"
    using getFromCache_logs [of lc st now "q_text firstItem" "q_targetLanguage firstItem"] by simp_all
  from a c logs show "drop (length (settledLog st)) (settledLog (processGroup lc api now st (firstItem # others)))
          = map (\<lambda>item. (q_id item, Inl err)) (firstItem # others)"
    by (simp add: processGroup_def settleAll_def Let_def)
next
  show "translateUserInput_resume detectApi userInput language (Inl err) =
        Inr \<lparr>translatedText = userInput, originalText = userInput, wasTranslated = False,
             detectedLanguage = language\<rparr>"
    by (simp add: translateUserInput_resume_rejected untranslated_def)
next
  show "\<exists>r. fst (translateUserInput lc loadConfig detectApi api st now userInput) = Inr r"
    using translateOrdinary_returns [of lc detectApi api "ensureInitialized loadConfig st" now userInput]
    by (simp add: translateUserInput_def Let_def)
next
  assume a: "translationCache st = [] \<and> (\<forall>n t l. isl (api n t l))"
  then have "translationCache (ensureInitialized loadConfig st) = []"
    by (simp add: ensureInitialized_def init_def split: sum.splits)
  with a have "fst (translateOrdinary lc detectApi api (ensureInitialized loadConfig st) now userInput)
       = Inr (Returned (untranslated userInput (detectLanguage detectApi userInput)))
     \<or> (\<exists>i. fst (translateOrdinary lc detectApi api (ensureInitialized loadConfig st) now userInput)
             = Inr (Awaiting i))"
    by (intro translateOrdinary_rejected) auto
  then show "fst (translateUserInput lc loadConfig detectApi api st now userInput) =
          Inr (Returned \<lparr>translatedText = userInput, originalText = userInput, wasTranslated = False,
                         detectedLanguage = detectLanguage detectApi userInput\<rparr>)
        \<or> (\<exists>i. fst (translateUserInput lc loadConfig detectApi api st now userInput)
                 = Inr (Awaiting i))"
    by (simp add: translateUserInput_def Let_def untranslated_def)
qed

theorem translateUserInput_fallback_witness:
  "translationCache initialState = []
   \<and> (\<forall>n t l. isl (failingApi n t l))
   \<and> \<not> truthy (fst (getFromCache (\<lambda>s. s) initialState 0 [0x4F60, 0x597D] (ascii ''en'')))
   \<and> failingApi 0 [0x4F60, 0x597D] (ascii ''en'') = Inl (ApiError 0)
   \<and> settledLog (processGroup (\<lambda>s. s) failingApi 0 initialState
        [\<lparr>q_id = 0, q_text = [0x4F60, 0x597D], q_targetLanguage = ascii ''en'', q_priority = 3,
          q_estimatedTokens = 3, q_timestamp = 0\<rparr>])
       = [(0, Inl (ApiError 0))]
   \<and> fst (translateUserInput (\<lambda>s. s) (Inr True) (\<lambda>t. Inl (ApiError 1)) failingApi initialState 0
        [0x4F60, 0x597D])
       = Inr (Returned \<lparr>translatedText = [0x4F60, 0x597D], originalText = [0x4F60, 0x597D],
                      wasTranslated = False, detectedLanguage = ascii ''zh''\<rparr>)"
  using translateUserInput_fallback [of "\<lambda>s. s" initialState 0
      "\<lparr>q_id = 0, q_text = [0x4F60, 0x597D], q_targetLanguage = ascii ''en'', q_priority = 3,
        q_estimatedTokens = 3, q_timestamp = 0\<rparr>" failingApi "ApiError 0" "[]"
      "\<lambda>t. Inl (ApiError 1)" "[0x4F60, 0x597D]" "ascii ''zh''" "Inr True"]
  by (simp add: translateUserInput_def translateOrdinary_def ensureInitialized_def init_def
      isSlashCommand_def detectLanguage_def detectChineseContent_ni_hao queueTranslation_def
      translateUserInput_resume_def tryCatch_def untranslated_def
      getFromCache_def map_get_def truthy_def canMakeRequest_def processQueue_def
      processBatch_def recordRequest_def completeRequest_def uniqueItems_def addToGroup_def
      processGroup_def settleAll_def failingApi_def estimateTokens_def isBasicCJK_def
      initialState_def startsWith_def trim_def isWhiteSpace_def ascii_def Let_def)

text \<open>
  Claim C8. If the trimmed input starts with one \<^verbatim>\<open>/\<close>, not with \<^verbatim>\<open>//\<close>, and is no URL,
  \<^verbatim>\<open>translateUserInput\<close> returns the input unchanged with \<^verbatim>\<open>wasTranslated\<close> false, makes
  no call to the translation capability and leaves the queue as it was: nothing but the
  initialisation touches the state. If the trimmed input starts with \<^verbatim>\<open>//\<close> it is no
  slash command and goes through the ordinary path.
\<close>

theorem slash_command_bypass:
  "(startsWith (trim userInput) (ascii ''/'') \<and> \<not> startsWith (trim userInput) (ascii ''//'')
      \<and> \<not> matchesUrlPrefix (trim userInput) \<longrightarrow>
        fst (translateUserInput lc loadConfig detectApi api st now userInput) =
          Inr (Returned \<lparr>translatedText = userInput, originalText = userInput, wasTranslated = False,
                         detectedLanguage = detectLanguage detectApi userInput\<rparr>)
        \<and> translationQueue (snd (translateUserInput lc loadConfig detectApi api st now userInput))
            = translationQueue st
        \<and> apiLog (snd (translateUserInput lc loadConfig detectApi api st now userInput)) = apiLog st
        \<and> snd (translateUserInput lc loadConfig detectApi api st now userInput)
            = ensureInitialized loadConfig st)
   \<and> (startsWith (trim userInput) (ascii ''//'') \<longrightarrow>
        \<not> isSlashCommand userInput
        \<and> translateUserInput lc loadConfig detectApi api st now userInput =
            translateOrdinary lc detectApi api (ensureInitialized loadConfig st) now userInput)"
  by (auto simp: translateUserInput_def isSlashCommand_def untranslated_def Let_def
      ensureInitialized_def init_def split: sum.splits)

theorem slash_command_bypass_witness:
  "startsWith (trim (ascii ''/help'')) (ascii ''/'')
   \<and> \<not> startsWith (trim (ascii ''/help'')) (ascii ''//'')
   \<and> \<not> matchesUrlPrefix (trim (ascii ''/help''))
   \<and> translateUserInput (\<lambda>s. s) (Inr True) (\<lambda>t. Inr (ascii ''en'')) failingApi initialState 0
        (ascii ''/help'')
       = (Inr (Returned \<lparr>translatedText = ascii ''/help'', originalText = ascii ''/help'',
                       wasTranslated = False, detectedLanguage = ascii ''en''\<rparr>),
          initialState\<lparr>initialized := True, enabled := True\<rparr>)
   \<and> startsWith (trim (ascii ''//not a command'')) (ascii ''//'')
   \<and> \<not> isSlashCommand (ascii ''//not a command'')
   \<and> translateUserInput (\<lambda>s. s) (Inr True) (\<lambda>t. Inr (ascii ''en'')) failingApi initialState 0
        (ascii ''//not a command'')
       = (Inr (Returned \<lparr>translatedText = ascii ''//not a command'',
                       originalText = ascii ''//not a command'',
                       wasTranslated = False, detectedLanguage = ascii ''en''\<rparr>),
          initialState\<lparr>initialized := True, enabled := True\<rparr>)"
  using slash_command_bypass [of "ascii ''/help''" "\<lambda>s. s" "Inr True" "\<lambda>t. Inr (ascii ''en'')"
      failingApi initialState 0]
    slash_command_bypass [of "ascii ''//not a command''" "\<lambda>s. s" "Inr True" "\<lambda>t. Inr (ascii ''en'')"
      failingApi initialState 0]
  by (simp add: translateUserInput_def translateOrdinary_def ensureInitialized_def init_def
      isSlashCommand_def matchesUrlPrefix_def detectLanguage_def detectChineseContent_comment_units
      untranslated_def initialState_def startsWith_def trim_def isWhiteSpace_def ascii_def Let_def)

section \<open>Chinese content detection: results\<close>

text \<open>
  A replacement keeps the code units of a class \<open>P\<close>, in their order, when no match
  holds one and the space is not in the class.
\<close>

lemma replaceAll_filter:
  "(\<And>prev s n. m prev s = Some n \<Longrightarrow> filter P (take n s) = []) \<Longrightarrow> \<not> P 0x20 \<Longrightarrow>
   filter P (replaceAll m prev s) = filter P s"
proof (induction m prev s rule: replaceAll.induct)
  case (1 m prev)
  then show ?case by (simp split: option.splits)
next
  case (2 m prev c cs)
  note clean = "2.prems"(1) and space = "2.prems"(2)
  show ?case
  proof (cases "m prev (c # cs)")
    case None
    with "2.IH"(1) [OF None clean space] show ?thesis by simp
  next
    case (Some n)
    show ?thesis
    proof (cases "n = 0")
      case True
      with Some "2.IH"(2) [OF Some True clean space] space show ?thesis by simp
    next
      case False
      have "filter P (c # cs) = filter P (take n (c # cs)) @ filter P (drop n (c # cs))"
        by (metis append_take_drop_id filter_append)
      also have "\<dots> = filter P (drop n (c # cs))"
        using clean [OF Some] by simp
      finally show ?thesis
        using Some False "2.IH"(3) [OF Some False clean space] space by simp
    qed
  qed
qed

text \<open>A replacement only removes code units and puts in spaces.\<close>

lemma set_replaceAll: "set (replaceAll m prev s) \<subseteq> insert 0x20 (set s)"
proof (induction m prev s rule: replaceAll.induct)
  case (1 m prev)
  then show ?case by (auto split: option.splits)
next
  case (2 m prev c cs)
  show ?case
  proof (cases "m prev (c # cs)")
    case None
    with 2 show ?thesis by auto
  next
    case (Some n)
    show ?thesis
    proof (cases "n = 0")
      case True
      with Some 2 show ?thesis by auto
    next
      case False
      have "set (drop n (c # cs)) \<subseteq> set (c # cs)" by (rule set_drop_subset)
      with Some False 2(3) [OF Some False] show ?thesis by auto
    qed
  qed
qed

text \<open>A pattern that matches nowhere in a text leaves it as it is.\<close>

lemma replaceAll_id:
  "(\<And>prev t. set t \<subseteq> set s \<Longrightarrow> m prev t = None) \<Longrightarrow> replaceAll m prev s = s"
proof (induction s arbitrary: prev)
  case Nil
  then show ?case by simp
next
  case (Cons c cs)
  have "m prev (c # cs) = None" by (rule Cons.prems) simp
  moreover have "replaceAll m (Some c) cs = cs"
  proof (rule Cons.IH)
    fix prev' t
    assume "set t \<subseteq> set cs"
    then have "set t \<subseteq> set (c # cs)" by auto
    then show "m prev' t = None" by (rule Cons.prems)
  qed
  ultimately show ?case by simp
qed

lemma filter_dropWhile_disjoint:
  "(\<And>x. Q x \<Longrightarrow> \<not> P x) \<Longrightarrow> filter P (dropWhile Q xs) = filter P xs"
  by (induction xs) auto

lemma whiteSpace_not_CJK: "isWhiteSpace c \<Longrightarrow> \<not> isBasicCJK c"
  by (auto simp: isWhiteSpace_def isBasicCJK_def)

lemma filter_CJK_trim: "filter isBasicCJK (trim s) = filter isBasicCJK s"
proof -
  have "filter isBasicCJK (trim s) = rev (filter isBasicCJK (dropWhile isWhiteSpace (rev (dropWhile isWhiteSpace s))))"
    by (simp add: trim_def rev_filter)
  also have "\<dots> = rev (filter isBasicCJK (rev (dropWhile isWhiteSpace s)))"
    by (simp add: filter_dropWhile_disjoint whiteSpace_not_CJK)
  also have "\<dots> = filter isBasicCJK (dropWhile isWhiteSpace s)"
    by (simp add: rev_filter)
  also have "\<dots> = filter isBasicCJK s"
    by (simp add: filter_dropWhile_disjoint whiteSpace_not_CJK)
  finally show ?thesis .
qed

lemma set_trim: "set (trim s) \<subseteq> set s"
proof -
  have "set (trim s) = set (dropWhile isWhiteSpace (rev (dropWhile isWhiteSpace s)))"
    by (simp add: trim_def)
  also have "\<dots> \<subseteq> set (rev (dropWhile isWhiteSpace s))"
    by (rule set_dropWhileD [THEN subsetI]) 
  also have "\<dots> \<subseteq> set s"
    using set_dropWhileD [of _ isWhiteSpace s] by auto
  finally show ?thesis .
qed

text \<open>
  No match of any of the seven patterns holds a code unit of the basic CJK block: the
  character classes and the look-aheads exclude them.
\<close>

lemma take_length_takeWhile: "take (length (takeWhile Q xs)) xs = takeWhile Q xs"
  by (induction xs) auto

lemma startsWith_take: "startsWith s p \<Longrightarrow> length p = k \<Longrightarrow> take k s = p"
  by (auto simp: startsWith_def)

lemma take_add_prefix: "take (k + n) s = take k s @ take n (drop k s)"
  by (simp add: take_add)

lemma filter_takeWhile_none: "(\<And>x. Q x \<Longrightarrow> \<not> P x) \<Longrightarrow> filter P (takeWhile Q xs) = []"
  by (induction xs) auto

lemma filter_take_none: "filter P xs = [] \<Longrightarrow> filter P (take n xs) = []"
  by (metis append_take_drop_id filter_append append_is_Nil_conv)

lemma filter_none_list_ex: "\<not> list_ex P xs \<Longrightarrow> filter P xs = []"
  by (induction xs) auto

lemma matchUrl_clean: "matchUrl prev s = Some n \<Longrightarrow> filter isBasicCJK (take n s) = []"
proof -
  assume a: "matchUrl prev s = Some n"
  let ?body = "\<lambda>k. takeWhile (\<lambda>c. \<not> isWhiteSpace c \<and> \<not> isBasicCJK c) (drop k s)"
  have body: "filter isBasicCJK (take (length (?body k)) (drop k s)) = []" for k
    unfolding take_length_takeWhile by (rule filter_takeWhile_none) simp
  show ?thesis
  proof (cases "startsWith s (ascii ''https://'')")
    case True
    with a have n: "n = 8 + length (?body 8)"
      by (auto simp: matchUrl_def Let_def split: if_splits)
    from True have "take 8 s = ascii ''https://''"
      by (rule startsWith_take) (simp add: ascii_def)
    then have "filter isBasicCJK (take 8 s) = []"
      by (simp add: ascii_def isBasicCJK_def)
    with body [of 8] show ?thesis unfolding n take_add_prefix by simp
  next
    case False
    with a have h: "startsWith s (ascii ''http://'')" and n: "n = 7 + length (?body 7)"
      by (auto simp: matchUrl_def Let_def split: if_splits)
    from h have "take 7 s = ascii ''http://''"
      by (rule startsWith_take) (simp add: ascii_def)
    then have "filter isBasicCJK (take 7 s) = []"
      by (simp add: ascii_def isBasicCJK_def)
    with body [of 7] show ?thesis unfolding n take_add_prefix by simp
  qed
qed

lemma matchWindowsPath_clean:
  "matchWindowsPath prev s = Some n \<Longrightarrow> filter isBasicCJK (take n s) = []"
proof -
  assume a: "matchWindowsPath prev s = Some n"
  then obtain drive colon sep rest where s: "s = drive # colon # sep # rest"
    by (auto simp: matchWindowsPath_def split: list.splits)
  from a s have c: "isAsciiLetter drive" "colon = 0x3A" "sep = 0x5C \<or> sep = 0x2F"
    "\<not> list_ex isBasicCJK rest"
    and n: "n = 3 + length (takeWhile (\<lambda>c. \<not> isWhiteSpace c) rest)"
    by (auto simp: matchWindowsPath_def Let_def split: if_splits)
  from c(4) have "filter isBasicCJK (take (length (takeWhile (\<lambda>c. \<not> isWhiteSpace c) rest)) rest) = []"
    by (intro filter_take_none filter_none_list_ex)
  with c(1-3) show ?thesis
    unfolding n s by (auto simp: isAsciiLetter_def isBasicCJK_def numeral_3_eq_3)
qed

lemma asciiLower_CJK: "asciiLower c < 0x80 \<Longrightarrow> \<not> isBasicCJK c"
  by (auto simp: asciiLower_def isBasicCJK_def split: if_splits)

lemma startsWithIgnoreCase_clean:
  assumes "startsWithIgnoreCase s w" and "\<forall>c \<in> set w. c < 0x80"
  shows "filter isBasicCJK (take (length w) s) = []"
proof -
  from assms(1) have "map asciiLower (take (length w) s) = w"
    by (simp add: startsWithIgnoreCase_def)
  then have "\<forall>c \<in> set (take (length w) s). asciiLower c \<in> set w"
    by (metis image_eqI set_map)
  with assms(2) have "\<forall>c \<in> set (take (length w) s). \<not> isBasicCJK c"
    by (metis asciiLower_CJK)
  then show ?thesis by (simp add: filter_empty_conv)
qed

lemma matchLogWord_clean: "matchLogWord s = Some k \<Longrightarrow> filter isBasicCJK (take k s) = []"
proof -
  assume a: "matchLogWord s = Some k"
  have w: "\<forall>c \<in> set (ascii ''error''). c < 0x80" "\<forall>c \<in> set (ascii ''warning''). c < 0x80"
    "\<forall>c \<in> set (ascii ''info''). c < 0x80" "\<forall>c \<in> set (ascii ''debug''). c < 0x80"
    by (simp_all add: ascii_def)
  have l: "length (ascii ''error'') = 5" "length (ascii ''warning'') = 7"
    "length (ascii ''info'') = 4" "length (ascii ''debug'') = 5"
    by (simp_all add: ascii_def)
  from a consider
      "startsWithIgnoreCase s (ascii ''error'')" "k = 5"
    | "startsWithIgnoreCase s (ascii ''warning'')" "k = 7"
    | "startsWithIgnoreCase s (ascii ''info'')" "k = 4"
    | "startsWithIgnoreCase s (ascii ''debug'')" "k = 5"
    by (auto simp: matchLogWord_def split: if_splits)
  then show ?thesis
  proof cases
    case 1
    with startsWithIgnoreCase_clean [OF 1(1) w(1)] l show ?thesis by simp
  next
    case 2
    with startsWithIgnoreCase_clean [OF 2(1) w(2)] l show ?thesis by simp
  next
    case 3
    with startsWithIgnoreCase_clean [OF 3(1) w(3)] l show ?thesis by simp
  next
    case 4
    with startsWithIgnoreCase_clean [OF 4(1) w(4)] l show ?thesis by simp
  qed
qed

lemma matchLogPrefix_clean:
  "matchLogPrefix prev s = Some n \<Longrightarrow> filter isBasicCJK (take n s) = []"
proof -
  assume a: "matchLogPrefix prev s = Some n"
  let ?lead = "takeWhile isWhiteSpace s"
  let ?s1 = "dropWhile isWhiteSpace s"
  from a obtain k where k: "matchLogWord ?s1 = Some k"
    by (auto simp: matchLogPrefix_def Let_def split: if_splits option.splits)
  from a k obtain colon s2 where d: "drop k ?s1 = colon # s2" and colon: "colon = 0x3A"
    by (auto simp: matchLogPrefix_def Let_def split: if_splits list.splits)
  let ?gap = "takeWhile isWhiteSpace s2"
  from a k d colon have n: "n = length ?lead + k + 1 + length ?gap"
    by (auto simp: matchLogPrefix_def Let_def split: if_splits)
  have s: "s = ?lead @ ?s1" by simp
  have s1: "?s1 = take k ?s1 @ colon # s2" using d by (metis append_take_drop_id)
  have kl: "length (take k ?s1) = k" using d by (cases "k \<le> length ?s1") auto
  have "take n s = ?lead @ take k ?s1 @ [colon] @ take (length ?gap) s2"
  proof -
    have "take n s = take n (?lead @ take k ?s1 @ colon # s2)"
      using s s1 by metis
    also have "\<dots> = ?lead @ take k ?s1 @ [colon] @ take (length ?gap) s2"
      using kl by (simp add: n)
    finally show ?thesis .
  qed
  moreover have "filter isBasicCJK ?lead = []"
    by (simp add: filter_takeWhile_none whiteSpace_not_CJK)
  moreover have "filter isBasicCJK (take k ?s1) = []"
    using k by (rule matchLogWord_clean)
  moreover have "filter isBasicCJK (take (length ?gap) s2) = []"
    by (simp add: take_length_takeWhile filter_takeWhile_none whiteSpace_not_CJK)
  ultimately show ?thesis using colon by (simp add: isBasicCJK_def)
qed

lemma matchCodeBlock_clean:
  "matchCodeBlock prev s = Some n \<Longrightarrow> filter isBasicCJK (take n s) = []"
proof -
  assume a: "matchCodeBlock prev s = Some n"
  then have f: "startsWith s (ascii ''```'')" and c: "\<not> list_ex isBasicCJK (drop 3 s)"
    by (auto simp: matchCodeBlock_def split: if_splits)
  from a obtain k where n: "n = 3 + (k + 3)"
    by (auto simp: matchCodeBlock_def split: if_splits option.splits)
  from f have "take 3 s = ascii ''```''"
    by (rule startsWith_take) (simp add: ascii_def)
  then have "filter isBasicCJK (take 3 s) = []"
    by (simp add: ascii_def isBasicCJK_def)
  moreover from c have "filter isBasicCJK (take (k + 3) (drop 3 s)) = []"
    by (intro filter_take_none filter_none_list_ex)
  ultimately show ?thesis unfolding n take_add_prefix by simp
qed

lemma matchInlineCode_clean:
  "matchInlineCode prev s = Some n \<Longrightarrow> filter isBasicCJK (take n s) = []"
proof -
  assume a: "matchInlineCode prev s = Some n"
  then obtain tick rest where s: "s = tick # rest" and tick: "tick = 0x60"
    by (auto simp: matchInlineCode_def split: list.splits if_splits)
  let ?body = "takeWhile (\<lambda>c. c \<noteq> 0x60) rest"
  let ?behind = "dropWhile (\<lambda>c. c \<noteq> 0x60) rest"
  from a s tick have c: "\<not> list_ex isBasicCJK ?body" and b: "?behind \<noteq> []"
    and n: "n = 1 + length ?body + 1"
    by (auto simp: matchInlineCode_def Let_def split: if_splits)
  from b obtain y ys where y: "?behind = y # ys" by (cases ?behind) auto
  then have "y = 0x60" using hd_dropWhile [of "\<lambda>c. c \<noteq> 0x60" rest] by auto
  with y have r: "rest = ?body @ 0x60 # ys" by (metis takeWhile_dropWhile_id)
  have "take n s = tick # ?body @ [0x60]"
  proof -
    have "take n s = tick # take (length ?body + 1) (?body @ 0x60 # ys)"
      using s r n by simp
    then show ?thesis by simp
  qed
  with c tick show ?thesis
    by (simp add: filter_none_list_ex isBasicCJK_def)
qed

lemma emailLocal_not_CJK: "isEmailLocal c \<Longrightarrow> \<not> isBasicCJK c"
  by (auto simp: isEmailLocal_def isAsciiLetter_def isAsciiDigit_def isBasicCJK_def)

lemma emailDomain_not_CJK: "isEmailDomain c \<Longrightarrow> \<not> isBasicCJK c"
  by (auto simp: isEmailDomain_def isAsciiLetter_def isAsciiDigit_def isBasicCJK_def)

lemma matchDomain_length: "matchDomain d = Some k \<Longrightarrow> k \<le> length d"
proof -
  assume a: "matchDomain d = Some k"
  then obtain j where f: "find (\<lambda>j. d ! j = 0x2E \<and> 2 \<le> length (takeWhile isAsciiLetter (drop (Suc j) d)))
             (rev [1..<length d]) = Some j"
    and k: "k = j + 1 + length (takeWhile isAsciiLetter (drop (Suc j) d))"
    by (auto simp: matchDomain_def split: option.splits)
  from f have "j \<in> set (rev [1..<length d])" by (metis find_Some_iff nth_mem)
  then have j: "j < length d" by simp
  have "length (takeWhile isAsciiLetter (drop (Suc j) d)) \<le> length (drop (Suc j) d)"
    by (rule length_takeWhile_le)
  with j k show ?thesis by simp
qed

lemma matchEmail_clean:
  "matchEmail prev s = Some n \<Longrightarrow> filter isBasicCJK (take n s) = []"
proof -
  assume a: "matchEmail prev s = Some n"
  let ?loc = "takeWhile isEmailLocal s"
  from a obtain atSign s1 where d: "dropWhile isEmailLocal s = atSign # s1" and at: "atSign = 0x40"
    by (auto simp: matchEmail_def Let_def split: if_splits list.splits)
  let ?dom = "takeWhile isEmailDomain s1"
  from a d at obtain k where k: "matchDomain ?dom = Some k" and n: "n = length ?loc + 1 + k"
    by (auto simp: matchEmail_def Let_def split: if_splits option.splits)
  from k have kd: "k \<le> length ?dom" by (rule matchDomain_length)
  have s: "s = ?loc @ atSign # s1" using d by (metis takeWhile_dropWhile_id)
  have "take n s = ?loc @ [atSign] @ take k s1"
  proof -
    have "take n s = take n (?loc @ atSign # s1)" using s by metis
    then show ?thesis by (simp add: n)
  qed
  moreover have "take k s1 = take k ?dom"
  proof -
    have "take k s1 = take k (?dom @ dropWhile isEmailDomain s1)" by simp
    also have "\<dots> = take k ?dom" using kd by (simp del: takeWhile_dropWhile_id)
    finally show ?thesis .
  qed
  moreover have "filter isBasicCJK ?loc = []"
    by (simp add: filter_takeWhile_none emailLocal_not_CJK)
  moreover have "filter isBasicCJK (take k ?dom) = []"
    by (intro filter_take_none) (simp add: filter_takeWhile_none emailDomain_not_CJK)
  ultimately show ?thesis using at by (simp add: isBasicCJK_def)
qed

lemma matchWhiteSpace_clean:
  "matchWhiteSpace prev s = Some n \<Longrightarrow> filter isBasicCJK (take n s) = []"
  by (auto simp: matchWhiteSpace_def Let_def take_length_takeWhile filter_takeWhile_none
      whiteSpace_not_CJK split: if_splits)

text \<open>Preprocessing keeps the code units of the basic CJK block, in their order.\<close>

lemma filter_CJK_preprocessText: "filter isBasicCJK (preprocessText text) = filter isBasicCJK text"
proof -
  have sp: "\<not> isBasicCJK 0x20" by (simp add: isBasicCJK_def)
  show ?thesis
    unfolding preprocessText_def filter_CJK_trim
    by (simp add: replaceAll_filter [OF matchWhiteSpace_clean sp]
        replaceAll_filter [OF matchEmail_clean sp] replaceAll_filter [OF matchInlineCode_clean sp]
        replaceAll_filter [OF matchCodeBlock_clean sp] replaceAll_filter [OF matchLogPrefix_clean sp]
        replaceAll_filter [OF matchWindowsPath_clean sp] replaceAll_filter [OF matchUrl_clean sp])
qed

lemma set_preprocessText: "set (preprocessText text) \<subseteq> insert 0x20 (set text)"
proof -
  have step: "set (replaceAll m None s) \<subseteq> insert 0x20 (set text)"
    if "set s \<subseteq> insert 0x20 (set text)" for m s
    using set_replaceAll [of m None s] that by auto
  have "set (replaceAll matchWhiteSpace None
       (replaceAll matchEmail None
         (replaceAll matchInlineCode None
           (replaceAll matchCodeBlock None
             (replaceAll matchLogPrefix None
               (replaceAll matchWindowsPath None
                 (replaceAll matchUrl None text))))))) \<subseteq> insert 0x20 (set text)"
    by (intro step) auto
  with set_trim show ?thesis unfolding preprocessText_def by blast
qed

lemma trim_Nil_iff: "trim s = [] \<longleftrightarrow> (\<forall>c \<in> set s. isWhiteSpace c)"
proof -
  have "trim s = [] \<longleftrightarrow> (\<forall>c \<in> set (dropWhile isWhiteSpace s). isWhiteSpace c)"
    by (simp add: trim_def dropWhile_eq_Nil_conv)
  also have "\<dots> \<longleftrightarrow> dropWhile isWhiteSpace s = []"
  proof
    assume a: "\<forall>c \<in> set (dropWhile isWhiteSpace s). isWhiteSpace c"
    show "dropWhile isWhiteSpace s = []"
    proof (rule ccontr)
      assume ne: "dropWhile isWhiteSpace s \<noteq> []"
      then have "\<not> isWhiteSpace (hd (dropWhile isWhiteSpace s))" by (rule hd_dropWhile)
      moreover from ne have "hd (dropWhile isWhiteSpace s) \<in> set (dropWhile isWhiteSpace s)"
        by (rule hd_in_set)
      ultimately show False using a by blast
    qed
  next
    assume e: "dropWhile isWhiteSpace s = []"
    show "\<forall>c \<in> set (dropWhile isWhiteSpace s). isWhiteSpace c" unfolding e by simp
  qed
  also have "\<dots> \<longleftrightarrow> (\<forall>c \<in> set s. isWhiteSpace c)"
    by (rule dropWhile_eq_Nil_conv)
  finally show ?thesis .
qed

lemma ideograph_not_whiteSpace: "isChineseIdeograph c \<Longrightarrow> \<not> isWhiteSpace c"
  by (auto simp: isChineseIdeograph_def isWhiteSpace_def)

lemma ideograph_extended: "isChineseIdeograph c \<Longrightarrow> isChineseExtended c"
  by (auto simp: isChineseIdeograph_def isChineseExtended_def)

lemma basicCJK_ideograph: "isBasicCJK c \<Longrightarrow> isChineseIdeograph c"
  by (auto simp: isChineseIdeograph_def isBasicCJK_def)

text \<open>A short text that keeps an ideograph through preprocessing is Chinese.\<close>

lemma detect_short:
  assumes "length text \<le> 20" and "list_ex isChineseIdeograph (preprocessText text)"
  shows "detectChineseContent text"
proof -
  from assms(2) obtain c where c: "c \<in> set (preprocessText text)" "isChineseIdeograph c"
    by (auto simp: list_ex_iff)
  from c(2) have "c \<noteq> 0x20" by (auto simp: isChineseIdeograph_def)
  with c(1) set_preprocessText [of "text"] have ct: "c \<in> set text" by auto
  then have "text \<noteq> []" by auto
  moreover from ct c(2) have "trim text \<noteq> []"
    using ideograph_not_whiteSpace trim_Nil_iff by blast
  moreover from ct c(2) have "filter isChineseExtended text \<noteq> []"
    using ideograph_extended by (auto simp: filter_empty_conv)
  moreover from c have "filter isChineseIdeograph (preprocessText text) \<noteq> []"
    by (auto simp: filter_empty_conv)
  then have "length (filter isChineseIdeograph (preprocessText text)) \<ge> 1"
    by (simp add: Suc_le_eq)
  ultimately show ?thesis
    using assms(1) by (simp add: detectChineseContent_def Let_def)
qed

lemma basicCJK_survives:
  assumes "list_ex isBasicCJK text"
  shows "list_ex isChineseIdeograph (preprocessText text)"
proof -
  from assms have "filter isBasicCJK text \<noteq> []"
    by (auto simp: list_ex_iff filter_empty_conv)
  then have "filter isBasicCJK (preprocessText text) \<noteq> []"
    by (simp add: filter_CJK_preprocessText)
  then obtain c where "c \<in> set (preprocessText text)" "isBasicCJK c"
    by (auto simp: filter_empty_conv)
  then show ?thesis using basicCJK_ideograph by (auto simp: list_ex_iff)
qed

text \<open>Texts without colon, backtick, at sign and white space pass preprocessing unchanged.\<close>

lemma matchUrl_no_colon: "0x3A \<notin> set t \<Longrightarrow> matchUrl prev t = None"
proof -
  assume a: "0x3A \<notin> set t"
  have "\<not> startsWith t (ascii ''https://'')"
  proof
    assume "startsWith t (ascii ''https://'')"
    then have "take 8 t = ascii ''https://''" by (rule startsWith_take) (simp add: ascii_def)
    then have "0x3A \<in> set (take 8 t)" by (simp add: ascii_def)
    with a show False using set_take_subset [of 8 t] by blast
  qed
  moreover have "\<not> startsWith t (ascii ''http://'')"
  proof
    assume "startsWith t (ascii ''http://'')"
    then have "take 7 t = ascii ''http://''" by (rule startsWith_take) (simp add: ascii_def)
    then have "0x3A \<in> set (take 7 t)" by (simp add: ascii_def)
    with a show False using set_take_subset [of 7 t] by blast
  qed
  ultimately show ?thesis by (simp add: matchUrl_def)
qed

lemma matchWindowsPath_no_colon: "0x3A \<notin> set t \<Longrightarrow> matchWindowsPath prev t = None"
  by (auto simp: matchWindowsPath_def split: list.splits)

lemma matchLogPrefix_no_colon: "0x3A \<notin> set t \<Longrightarrow> matchLogPrefix prev t = None"
proof -
  assume a: "0x3A \<notin> set t"
  have "set (drop k (dropWhile isWhiteSpace t)) \<subseteq> set t" for k
    using set_drop_subset [of k "dropWhile isWhiteSpace t"] set_dropWhileD [of _ isWhiteSpace t]
    by blast
  with a have "drop k (dropWhile isWhiteSpace t) \<noteq> 0x3A # s2" for k s2
    by (metis list.set_intros(1) subsetD)
  then show ?thesis
    by (auto simp: matchLogPrefix_def Let_def split: option.splits list.splits)
qed

lemma matchCodeBlock_no_tick: "0x60 \<notin> set t \<Longrightarrow> matchCodeBlock prev t = None"
proof -
  assume a: "0x60 \<notin> set t"
  have "\<not> startsWith t (ascii ''```'')"
  proof
    assume "startsWith t (ascii ''```'')"
    then have "take 3 t = ascii ''```''" by (rule startsWith_take) (simp add: ascii_def)
    then have "0x60 \<in> set (take 3 t)" by (simp add: ascii_def)
    with a show False using set_take_subset [of 3 t] by blast
  qed
  then show ?thesis by (simp add: matchCodeBlock_def)
qed

lemma matchInlineCode_no_tick: "0x60 \<notin> set t \<Longrightarrow> matchInlineCode prev t = None"
  by (auto simp: matchInlineCode_def split: list.splits)

lemma matchEmail_no_at: "0x40 \<notin> set t \<Longrightarrow> matchEmail prev t = None"
proof -
  assume a: "0x40 \<notin> set t"
  have "dropWhile isEmailLocal t \<noteq> 0x40 # s1" for s1
    using a set_dropWhileD [of "0x40" isEmailLocal t] by (metis list.set_intros(1))
  then show ?thesis
    by (auto simp: matchEmail_def Let_def split: list.splits)
qed

lemma matchWhiteSpace_none: "\<forall>c \<in> set t. \<not> isWhiteSpace c \<Longrightarrow> matchWhiteSpace prev t = None"
  by (cases t) (auto simp: matchWhiteSpace_def Let_def)

lemma trim_plain: "\<forall>c \<in> set t. \<not> isWhiteSpace c \<Longrightarrow> trim t = t"
proof -
  assume a: "\<forall>c \<in> set t. \<not> isWhiteSpace c"
  have d: "dropWhile isWhiteSpace s = s" if "\<forall>c \<in> set s. \<not> isWhiteSpace c" for s
    using that by (cases s) auto
  from a have "dropWhile isWhiteSpace (rev t) = rev t" by (intro d) simp
  with d [OF a] show ?thesis by (simp add: trim_def)
qed

lemma preprocessText_plain:
  assumes "\<forall>c \<in> set text. c \<noteq> 0x3A \<and> c \<noteq> 0x60 \<and> c \<noteq> 0x40 \<and> \<not> isWhiteSpace c"
  shows "preprocessText text = text"
proof -
  have 1: "replaceAll matchUrl None text = text"
    using assms by (intro replaceAll_id matchUrl_no_colon) auto
  have 2: "replaceAll matchWindowsPath None text = text"
    using assms by (intro replaceAll_id matchWindowsPath_no_colon) auto
  have 3: "replaceAll matchLogPrefix None text = text"
    using assms by (intro replaceAll_id matchLogPrefix_no_colon) auto
  have 4: "replaceAll matchCodeBlock None text = text"
    using assms by (intro replaceAll_id matchCodeBlock_no_tick) auto
  have 5: "replaceAll matchInlineCode None text = text"
    using assms by (intro replaceAll_id matchInlineCode_no_tick) auto
  have 6: "replaceAll matchEmail None text = text"
    using assms by (intro replaceAll_id matchEmail_no_at) auto
  have 7: "replaceAll matchWhiteSpace None text = text"
    using assms by (intro replaceAll_id matchWhiteSpace_none) auto
  have 8: "trim text = text"
    using assms by (intro trim_plain) auto
  show ?thesis by (simp add: preprocessText_def 1 2 3 4 5 6 7 8)
qed

lemma preprocessText_long: "preprocessText (asciiText 1000 @ [0x4F60]) = asciiText 1000 @ [0x4F60]"
  by (rule preprocessText_plain) (simp add: asciiText_def isWhiteSpace_def)

lemma trim_long: "trim (asciiText 1000 @ [0x4F60]) = asciiText 1000 @ [0x4F60]"
  by (rule trim_plain) (simp add: asciiText_def isWhiteSpace_def)

lemma long_text_counts:
  "length (asciiText n) = n"
  "filter isChineseIdeograph (asciiText n) = []"
  "filter isChineseExtended (asciiText n) = []"
  "isChineseIdeograph 0x4F60"
  "isChineseExtended 0x4F60"
  by (simp_all add: asciiText_def isChineseIdeograph_def isChineseExtended_def)

lemma preprocessText_fullwidth:
  "preprocessText (0xFF01 # 0x4F60 # asciiText 19) = 0xFF01 # 0x4F60 # asciiText 19"
  by (rule preprocessText_plain) (simp add: asciiText_def isWhiteSpace_def)

lemma trim_fullwidth: "trim (0xFF01 # 0x4F60 # asciiText 19) = 0xFF01 # 0x4F60 # asciiText 19"
  by (rule trim_plain) (simp add: asciiText_def isWhiteSpace_def)

text \<open>
  The two counts of the detector are taken over different classes. The count after
  preprocessing, and the ratio after preprocessing, are over the ideographs U+4E00 to
  U+9FFF, U+3400 to U+4DBF and U+F900 to U+FAFF (\<^const>\<open>isChineseIdeograph\<close>). The raw count,
  and the raw ratio, are over \<^const>\<open>isChineseExtended\<close>: these ideographs and also the CJK
  punctuation U+3000 to U+303F and the full-width forms U+FF00 to U+FFEF. The difference
  decides: the full-width exclamation mark U+FF01, then U+4F60, then 19 letters
  \<^verbatim>\<open>a\<close> is a text of length 21 with one ideograph, so both ratios taken over the
  ideographs are 1/21, below 0.08, and the count is 1; the raw ratio of the detector is
  2/21, which is at least 0.08, and the detector returns true.
\<close>

lemma detectChineseContent_fullwidth:
  "length ([0xFF01, 0x4F60] @ asciiText 19) > 20
   \<and> real (length (filter isChineseIdeograph (preprocessText ([0xFF01, 0x4F60] @ asciiText 19))))
        / real (length (preprocessText ([0xFF01, 0x4F60] @ asciiText 19))) < 0.1
   \<and> real (length (filter isChineseIdeograph ([0xFF01, 0x4F60] @ asciiText 19)))
        / real (length ([0xFF01, 0x4F60] @ asciiText 19)) < 0.08
   \<and> length (filter isChineseIdeograph (preprocessText ([0xFF01, 0x4F60] @ asciiText 19))) < 5
   \<and> real (length (filter isChineseExtended ([0xFF01, 0x4F60] @ asciiText 19)))
        / real (length ([0xFF01, 0x4F60] @ asciiText 19)) \<ge> 0.08
   \<and> detectChineseContent ([0xFF01, 0x4F60] @ asciiText 19)"
  by (simp add: detectChineseContent_def Let_def preprocessText_fullwidth trim_fullwidth
      long_text_counts isChineseIdeograph_def isChineseExtended_def)

text \<open>
  Claim C9, as stated, fails: \<^verbatim>\<open>http://\<close> followed by U+3400, an ideograph of CJK
  Extension A that the detector itself counts, has length 8, and the detector returns
  false, because the URL pattern takes the ideograph with the URL.
\<close>

theorem detectChineseContent_url_counterexample:
  "length (ascii ''http://'' @ [0x3400]) \<le> 20
   \<and> list_ex isChineseIdeograph (ascii ''http://'' @ [0x3400])
   \<and> preprocessText (ascii ''http://'' @ [0x3400]) = []
   \<and> \<not> detectChineseContent (ascii ''http://'' @ [0x3400])"
  by (simp add: classifier_eval)

text \<open>
  Claim C9, amended. The detector returns true for every text of length at most 20 that
  still holds an ideograph after preprocessing, and so for every text of length at most
  20 with a code unit of the basic block U+4E00 to U+9FFF, which preprocessing never
  removes; in particular for the two ideographs U+4F60 U+597D. It returns false for a
  text of length above 20 that meets three conditions: the ratio after preprocessing,
  of the ideographs (U+4E00 to U+9FFF, U+3400 to U+4DBF, U+F900 to U+FAFF) left by
  preprocessing to the length of the preprocessed text, is below 0.10; the raw ratio, of
  the code units of the text as given that are such ideographs or CJK punctuation
  U+3000 to U+303F or full-width forms U+FF00 to U+FFEF, to the length of the text as
  given, is below 0.08; and the count of ideographs left by preprocessing is below 5. In
  particular it returns false for 1000 letters \<^verbatim>\<open>a\<close> followed by U+4F60. The raw
  ratio is over the wider class \<^const>\<open>isChineseExtended\<close>, the other two quantities over
  \<^const>\<open>isChineseIdeograph\<close>.
\<close>

theorem detectChineseContent_boundary:
  "(length text \<le> 20 \<and> list_ex isChineseIdeograph (preprocessText text) \<longrightarrow>
      detectChineseContent text)
   \<and> (length text \<le> 20 \<and> list_ex isBasicCJK text \<longrightarrow> detectChineseContent text)
   \<and> detectChineseContent [0x4F60, 0x597D]
   \<and> (length text > 20
       \<and> real (length (filter isChineseIdeograph (preprocessText text)))
           / real (length (preprocessText text)) < 0.1
       \<and> real (length (filter isChineseExtended text)) / real (length text) < 0.08
       \<and> length (filter isChineseIdeograph (preprocessText text)) < 5 \<longrightarrow>
      \<not> detectChineseContent text)
   \<and> \<not> detectChineseContent (asciiText 1000 @ [0x4F60])"
proof (intro conjI impI)
  assume "length text \<le> 20 \<and> list_ex isChineseIdeograph (preprocessText text)"
  then show "detectChineseContent text" using detect_short by blast
next
  assume "length text \<le> 20 \<and> list_ex isBasicCJK text"
  then show "detectChineseContent text" using detect_short basicCJK_survives by blast
next
  show "detectChineseContent [0x4F60, 0x597D]" by (rule detectChineseContent_ni_hao)
next
  assume "length text > 20
       \<and> real (length (filter isChineseIdeograph (preprocessText text)))
           / real (length (preprocessText text)) < 0.1
       \<and> real (length (filter isChineseExtended text)) / real (length text) < 0.08
       \<and> length (filter isChineseIdeograph (preprocessText text)) < 5"
  then show "\<not> detectChineseContent text"
    by (auto simp: detectChineseContent_def Let_def)
next
  show "\<not> detectChineseContent (asciiText 1000 @ [0x4F60])"
    by (simp add: detectChineseContent_def Let_def preprocessText_long trim_long long_text_counts)
qed

theorem detectChineseContent_boundary_witness:
  "length [0x4F60, 0x597D :: nat] \<le> 20
   \<and> list_ex isBasicCJK [0x4F60, 0x597D]
   \<and> list_ex isChineseIdeograph (preprocessText [0x4F60, 0x597D])
   \<and> detectChineseContent [0x4F60, 0x597D]
   \<and> length (asciiText 1000 @ [0x4F60]) > 20
   \<and> real (length (filter isChineseIdeograph (preprocessText (asciiText 1000 @ [0x4F60]))))
        / real (length (preprocessText (asciiText 1000 @ [0x4F60]))) < 0.1
   \<and> real (length (filter isChineseExtended (asciiText 1000 @ [0x4F60])))
        / real (length (asciiText 1000 @ [0x4F60])) < 0.08
   \<and> length (filter isChineseIdeograph (preprocessText (asciiText 1000 @ [0x4F60]))) < 5
   \<and> \<not> detectChineseContent (asciiText 1000 @ [0x4F60])"
  using detectChineseContent_boundary [of "[0x4F60, 0x597D]"]
    detectChineseContent_boundary [of "asciiText 1000 @ [0x4F60]"]
    basicCJK_survives [of "[0x4F60, 0x597D]"]
  by (simp add: preprocessText_long trim_long long_text_counts isBasicCJK_def)

end
